theory Spec2Isabelle
  imports Complex_Main "HOL-Library.Multiset"
begin

section \<open>Data model of \<^verbatim>\<open>pareto_optimizer.py\<close>\<close>

text \<open>
  Python characters are modelled by \<^typ>\<open>char\<close>. Every character of the keyboard has a
  code point below 256 (\<^verbatim>\<open>o-umlaut\<close> is 0xF6, \<^verbatim>\<open>a-umlaut\<close> is 0xE4), so each is one
  \<^typ>\<open>char\<close> and \<^term>\<open>length\<close> of a word counts what Python's \<^verbatim>\<open>len\<close> counts.
  Python's \<^verbatim>\<open>int\<close> is \<^typ>\<open>int\<close>. The metrics are Python floats; they are modelled by
  exact rationals, and the one infinite float the program uses (\<^verbatim>\<open>float('inf')\<close>, for
  the crowding distance) by the extra value \<open>PInf\<close> of the type \<open>xrat\<close>.
  Exceptions are values of the type \<open>py_error\<close>.
\<close>

datatype py_error = ZeroDivisionError | IndexError

record Position =
  row :: int
  col :: int
  finger :: int

type_synonym layout_dict = "char \<Rightarrow> Position option"

record LayoutMetrics =
  sfb :: rat
  scissors :: rat
  lat_stretch :: rat
  skip_bigrams :: rat

datatype xrat = Fin rat | PInf

instantiation xrat :: linorder
begin

fun less_eq_xrat :: "xrat \<Rightarrow> xrat \<Rightarrow> bool" where
  "less_eq_xrat (Fin a) (Fin b) = (a \<le> b)"
| "less_eq_xrat x PInf = True"
| "less_eq_xrat PInf (Fin b) = False"

definition less_xrat :: "xrat \<Rightarrow> xrat \<Rightarrow> bool" where
  "less_xrat x y = (x \<le> y \<and> \<not> y \<le> (x::xrat))"

instance
proof
  fix x y z :: xrat
  show "(x < y) = (x \<le> y \<and> \<not> y \<le> x)" by (simp add: less_xrat_def)
  show "x \<le> x" by (cases x) simp_all
  show "x \<le> y \<Longrightarrow> y \<le> z \<Longrightarrow> x \<le> z"
    by (cases x; cases y; cases z) simp_all
  show "x \<le> y \<Longrightarrow> y \<le> x \<Longrightarrow> x = y" by (cases x; cases y) simp_all
  show "x \<le> y \<or> y \<le> x" by (cases x; cases y) auto
qed

end

text \<open>\<^verbatim>\<open>crowding_distance += distance\<close>, for a finite \<^verbatim>\<open>distance\<close>: \<^verbatim>\<open>inf + d\<close> is \<^verbatim>\<open>inf\<close>.\<close>

fun add_dist :: "xrat \<Rightarrow> rat \<Rightarrow> xrat" where
  "add_dist (Fin a) d = Fin (a + d)"
| "add_dist PInf d = PInf"

text \<open>
  A \<^verbatim>\<open>Layout\<close> object. \<open>positions\<close> is a reference to a dictionary of the store (below).
  \<open>domination_count\<close> and \<open>dominated_solutions\<close> are the attributes that
  \<^verbatim>\<open>fast_non_dominated_sort\<close> attaches to the object; it assigns both before it reads
  them, so their value in a fresh object is never observed.
\<close>

record Layout =
  positions :: nat
  english_metrics :: LayoutMetrics
  finnish_metrics :: LayoutMetrics
  weighted_score :: rat
  rank :: int
  crowding_distance :: xrat
  domination_count :: int
  dominated_solutions :: "nat list"

text \<open>
  The store: Python's position dictionaries and \<^verbatim>\<open>Layout\<close> objects are mutable and
  passed by reference. A reference is a natural number; \<open>dicts\<close> and \<open>objs\<close> give
  the object behind a reference, and \<open>n_dicts\<close> and \<open>n_objs\<close> are the next free
  references (the references below them are the allocated ones).
\<close>

record heap =
  dicts :: "nat \<Rightarrow> layout_dict"
  n_dicts :: nat
  objs :: "nat \<Rightarrow> Layout"
  n_objs :: nat

text \<open>The state of a \<^verbatim>\<open>KeyboardOptimizer\<close> that evaluation reads.\<close>

record optimizer =
  english_bigrams :: "(string \<times> int) list"
  english_total :: int
  finnish_bigrams :: "(string \<times> int) list"
  finnish_total :: int

section \<open>The keyboard of \<^verbatim>\<open>KeyboardOptimizer.__init__\<close>\<close>

definition pos :: "int \<Rightarrow> int \<Rightarrow> int \<Rightarrow> Position" where
  "pos r c f = \<lparr>row = r, col = c, finger = f\<rparr>"

definition fixed_letters :: "char list" where
  "fixed_letters = ''nrstheaiuoy''"

definition base_items :: "(char \<times> Position) list" where
  "base_items =
    [(CHR ''n'', pos 1 1 1), (CHR ''r'', pos 1 2 2), (CHR ''s'', pos 1 3 3),
     (CHR ''t'', pos 1 4 4), (CHR ''h'', pos 1 7 7), (CHR ''e'', pos 1 8 8),
     (CHR ''a'', pos 1 9 9), (CHR ''i'', pos 1 10 10), (CHR ''u'', pos 0 8 8),
     (CHR ''o'', pos 0 9 9), (CHR ''y'', pos 0 10 10), (CHR '' '', pos 3 6 6)]"

definition base_layout :: layout_dict where
  "base_layout = map_of base_items"

definition moveable_positions :: "Position list" where
  "moveable_positions =
    [pos 0 1 1, pos 0 2 2, pos 0 3 3, pos 0 4 4, pos 0 5 4, pos 0 6 7, pos 0 7 7,
     pos 0 11 10, pos 1 0 1, pos 1 5 4, pos 1 6 7, pos 1 11 10, pos 2 0 1, pos 2 1 1,
     pos 2 2 2, pos 2 3 3, pos 2 4 4, pos 2 5 4, pos 2 6 7, pos 2 7 7, pos 2 8 8,
     pos 2 9 9, pos 2 10 10, pos 2 11 10]"

definition moveable_letters :: "char list" where
  "moveable_letters =
    [CHR ''q'', CHR ''l'', CHR ''c'', CHR ''m'', CHR ''k'', CHR 0x27, CHR ''f'', CHR 0xF6,
     CHR ''-'', CHR ''w'', CHR ''p'', CHR 0xE4, CHR 0x5C, CHR ''j'', CHR ''x'', CHR ''z'',
     CHR ''g'', CHR ''v'', CHR ''b'', CHR ''d'', CHR '';'', CHR '','', CHR ''.'', CHR ''/'']"

section \<open>\<^verbatim>\<open>calculate_bigrams_from_words\<close>\<close>

text \<open>
  A Python dictionary that is iterated is an association list in insertion order.
  \<open>dict_add\<close> is \<^verbatim>\<open>if bigram not in bigrams: bigrams[bigram] = 0; bigrams[bigram] += cnt\<close>.
\<close>

fun dict_add :: "(string \<times> int) list \<Rightarrow> string \<Rightarrow> int \<Rightarrow> (string \<times> int) list" where
  "dict_add [] k c = [(k, 0 + c)]"
| "dict_add ((k', v) # kvs) k c =
     (if k' = k then (k', v + c) # kvs else (k', v) # dict_add kvs k c)"

definition word_step ::
  "(string \<times> int) list \<times> int \<Rightarrow> string \<times> int \<Rightarrow> (string \<times> int) list \<times> int" where
  "word_step st wc =
     (case (st, wc) of ((bigrams, total_length), (word, cnt)) \<Rightarrow>
        let word_with_spaces = '' '' @ word @ '' '' in
          (foldl (\<lambda>b i. dict_add b (take 2 (drop i word_with_spaces)) cnt)
             bigrams [0..<length word_with_spaces - 1],
           total_length + (int (length word) + 1) * cnt))"

definition calculate_bigrams_from_words ::
  "(string \<times> int) list \<Rightarrow> (string \<times> int) list \<times> int" where
  "calculate_bigrams_from_words words = foldl word_step ([], 0) words"

text \<open>
  \<^verbatim>\<open>load_language_data\<close>, from the two parsed corpora. No statement of it (or of
  \<^verbatim>\<open>__init__\<close>) inspects a total or raises on the corpora, so the result is always
  \<open>Inr\<close>.
\<close>

definition load_language_data ::
  "(string \<times> int) list \<Rightarrow> (string \<times> int) list \<Rightarrow> py_error + optimizer" where
  "load_language_data english_words finnish_words =
     (case calculate_bigrams_from_words english_words of (eb, et) \<Rightarrow>
      case calculate_bigrams_from_words finnish_words of (fb, ft) \<Rightarrow>
        Inr \<lparr>english_bigrams = eb, english_total = et,
             finnish_bigrams = fb, finnish_total = ft\<rparr>)"

section \<open>\<^verbatim>\<open>calculate_metrics\<close>\<close>

record counters =
  c_sfb :: rat
  c_scissors :: rat
  c_lat_str :: rat
  c_wide_scissors :: rat

definition left_hand :: "int \<Rightarrow> int \<Rightarrow> int \<Rightarrow> int \<Rightarrow> int \<Rightarrow> counters \<Rightarrow> counters" where
  "left_hand row1 col1 row2 col2 cnt acc =
     (if row1 \<le> 2 \<and> row2 \<le> 2 then
        let acc1 =
              (if \<bar>row1 - row2\<bar> = 2 then
                 (if \<bar>col1 - col2\<bar> = 1
                  then acc\<lparr>c_scissors := c_scissors acc + of_int cnt\<rparr>
                  else acc\<lparr>c_wide_scissors := c_wide_scissors acc + of_int cnt\<rparr>)
               else acc);
            acc2 =
              (if (col1 = 5 \<and> col2 = 3) \<or> (col1 = 3 \<and> col2 = 5)
               then acc1\<lparr>c_lat_str := c_lat_str acc1 + of_int cnt\<rparr> else acc1)
        in (if (col1 = 5 \<and> col2 = 2) \<or> (col1 = 2 \<and> col2 = 5)
            then acc2\<lparr>c_lat_str := c_lat_str acc2 + of_int cnt / 2\<rparr> else acc2)
      else acc)"

definition right_hand :: "int \<Rightarrow> int \<Rightarrow> int \<Rightarrow> int \<Rightarrow> int \<Rightarrow> counters \<Rightarrow> counters" where
  "right_hand row1 col1 row2 col2 cnt acc =
     (if row1 \<le> 2 \<and> row2 \<le> 2 then
        let acc1 =
              (if \<bar>row1 - row2\<bar> = 2 then
                 (if \<bar>col1 - col2\<bar> = 1
                  then acc\<lparr>c_scissors := c_scissors acc + of_int cnt\<rparr>
                  else acc\<lparr>c_wide_scissors := c_wide_scissors acc + of_int cnt\<rparr>)
               else acc);
            acc2 =
              (if (col1 = 6 \<and> col2 = 8) \<or> (col1 = 8 \<and> col2 = 6)
               then acc1\<lparr>c_lat_str := c_lat_str acc1 + of_int cnt\<rparr> else acc1)
        in (if (col1 = 6 \<and> col2 = 9) \<or> (col1 = 9 \<and> col2 = 6)
            then acc2\<lparr>c_lat_str := c_lat_str acc2 + of_int cnt / 2\<rparr> else acc2)
      else acc)"

text \<open>One pass of the loop over \<^verbatim>\<open>bigrams.items()\<close>.\<close>

definition bigram_step :: "layout_dict \<Rightarrow> counters \<Rightarrow> string \<times> int \<Rightarrow> counters" where
  "bigram_step layout acc bc =
     (case bc of (bigram, cnt) \<Rightarrow>
        if length bigram \<noteq> 2 then acc
        else
          let char1 = bigram ! 0; char2 = bigram ! 1 in
          (case layout char1 of None \<Rightarrow> acc | Some pos1 \<Rightarrow>
           case layout char2 of None \<Rightarrow> acc | Some pos2 \<Rightarrow>
             let row1 = row pos1; col1 = col pos1; finger1 = finger pos1;
                 row2 = row pos2; col2 = col pos2; finger2 = finger pos2
             in
               if finger1 = finger2 \<and> char1 \<noteq> char2
               then acc\<lparr>c_sfb := c_sfb acc + of_int cnt\<rparr>
               else if finger1 \<noteq> finger2 then
                 (if col1 \<le> 5 \<and> col2 \<le> 5 then left_hand row1 col1 row2 col2 cnt acc
                  else if col1 \<ge> 6 \<and> col2 \<ge> 6 then right_hand row1 col1 row2 col2 cnt acc
                  else acc)
               else acc))"

definition accumulate :: "layout_dict \<Rightarrow> (string \<times> int) list \<Rightarrow> counters" where
  "accumulate layout bigrams =
     foldl (bigram_step layout)
       \<lparr>c_sfb = 0, c_scissors = 0, c_lat_str = 0, c_wide_scissors = 0\<rparr> bigrams"

text \<open>
  The accumulation loop runs first; the three divisions follow it. Python raises
  \<^verbatim>\<open>ZeroDivisionError\<close> at the first of them when \<^verbatim>\<open>total_length\<close> is 0.
\<close>

definition calculate_metrics ::
  "layout_dict \<Rightarrow> (string \<times> int) list \<Rightarrow> int \<Rightarrow> py_error + LayoutMetrics" where
  "calculate_metrics layout bigrams total_length =
     (let acc = accumulate layout bigrams in
        if total_length = 0 then Inl ZeroDivisionError
        else
          let sfb_pct = (c_sfb acc * 100) / of_int total_length;
              scissors_pct = (c_scissors acc * 100) / of_int total_length;
              lat_str_pct = (c_lat_str acc * 100) / of_int total_length;
              skip_bigrams_pct = scissors_pct
          in Inr \<lparr>sfb = sfb_pct, scissors = scissors_pct,
                  lat_stretch = lat_str_pct, skip_bigrams = skip_bigrams_pct\<rparr>)"

section \<open>\<^verbatim>\<open>evaluate_layout\<close>\<close>

text \<open>
  \<^verbatim>\<open>evaluate_layout(layout_positions)\<close> reads the dictionary behind the reference and
  allocates the new \<^verbatim>\<open>Layout\<close> object, which keeps the reference (no copy).
\<close>

definition evaluate_layout :: "optimizer \<Rightarrow> heap \<Rightarrow> nat \<Rightarrow> py_error + (nat \<times> heap)" where
  "evaluate_layout opt h layout_positions =
     (case calculate_metrics (dicts h layout_positions)
             (english_bigrams opt) (english_total opt) of
        Inl e \<Rightarrow> Inl e
      | Inr em \<Rightarrow>
     (case calculate_metrics (dicts h layout_positions)
             (finnish_bigrams opt) (finnish_total opt) of
        Inl e \<Rightarrow> Inl e
      | Inr fm \<Rightarrow>
          let english_score = sfb em + scissors em + lat_stretch em;
              finnish_score = sfb fm + scissors fm + lat_stretch fm;
              ws = (8 / 10) * english_score + (2 / 10) * finnish_score
          in Inr (n_objs h,
                  h\<lparr>objs := (objs h)(n_objs h :=
                       \<lparr>positions = layout_positions, english_metrics = em,
                        finnish_metrics = fm, weighted_score = ws, rank = 0,
                        crowding_distance = Fin 0, domination_count = 0,
                        dominated_solutions = []\<rparr>),
                    n_objs := n_objs h + 1\<rparr>)))"

section \<open>\<^verbatim>\<open>create_random_layout\<close> and \<^verbatim>\<open>mutate_layout\<close>\<close>

text \<open>
  The random source is a parameter. \<^verbatim>\<open>random.shuffle\<close> leaves a permutation of the
  list, so \<open>create_random_layout\<close> takes the two shuffled lists; the dictionary is the
  copy of \<^verbatim>\<open>base_layout\<close>, updated once for each pair of the \<^verbatim>\<open>zip\<close>.
\<close>

definition create_random_layout :: "heap \<Rightarrow> char list \<Rightarrow> Position list \<Rightarrow> nat \<times> heap" where
  "create_random_layout h shuffled_letters shuffled_positions =
     (let layout = foldl (\<lambda>d lp. d(fst lp \<mapsto> snd lp)) base_layout
                     (zip shuffled_letters shuffled_positions)
      in (n_dicts h, h\<lparr>dicts := (dicts h)(n_dicts h := layout), n_dicts := n_dicts h + 1\<rparr>))"

text \<open>
  \<^verbatim>\<open>mutate_layout(layout)\<close>; \<open>idx1\<close> and \<open>idx2\<close> are what
  \<^verbatim>\<open>random.sample(range(len(moveable_chars)), 2)\<close> returns: two different indices
  below \<^verbatim>\<open>len(moveable_chars)\<close>. \<^verbatim>\<open>deepcopy\<close> allocates a new dictionary with the
  contents of the parent's (\<open>h1\<close>); the swap writes to the new dictionary (\<open>h2\<close>).
  \<open>swap_mutation\<close> is what lines 262 to 278 do to the contents of \<^verbatim>\<open>new_positions\<close>:
  the right-hand side of the tuple assignment is read before either entry is written.
\<close>

definition swap_mutation :: "layout_dict \<Rightarrow> nat \<Rightarrow> nat \<Rightarrow> layout_dict" where
  "swap_mutation d idx1 idx2 =
     (let moveable_chars = filter (\<lambda>c. d c \<noteq> None) moveable_letters in
        if length moveable_chars \<ge> 2 then
          let char1 = moveable_chars ! idx1; char2 = moveable_chars ! idx2
          in d(char1 := d char2, char2 := d char1)
        else d)"

definition mutate_layout ::
  "optimizer \<Rightarrow> heap \<Rightarrow> nat \<Rightarrow> nat \<Rightarrow> nat \<Rightarrow> py_error + (nat \<times> heap)" where
  "mutate_layout opt h layout idx1 idx2 =
     (let new_positions = n_dicts h;
          h1 = h\<lparr>dicts := (dicts h)(new_positions := dicts h (positions (objs h layout))),
                 n_dicts := n_dicts h + 1\<rparr>;
          h2 = h1\<lparr>dicts := (dicts h1)(new_positions :=
                                swap_mutation (dicts h1 new_positions) idx1 idx2)\<rparr>
      in evaluate_layout opt h2 new_positions)"

section \<open>\<^verbatim>\<open>Layout.dominates\<close>\<close>

definition objectives :: "(Layout \<Rightarrow> rat) list" where
  "objectives =
    [\<lambda>l. sfb (english_metrics l), \<lambda>l. scissors (english_metrics l),
     \<lambda>l. lat_stretch (english_metrics l), \<lambda>l. skip_bigrams (english_metrics l),
     \<lambda>l. sfb (finnish_metrics l), \<lambda>l. scissors (finnish_metrics l),
     \<lambda>l. lat_stretch (finnish_metrics l), \<lambda>l. skip_bigrams (finnish_metrics l)]"

definition dominates :: "Layout \<Rightarrow> Layout \<Rightarrow> bool" where
  "dominates self other =
     (let self_obj =
            [sfb (english_metrics self), scissors (english_metrics self),
             lat_stretch (english_metrics self), skip_bigrams (english_metrics self),
             sfb (finnish_metrics self), scissors (finnish_metrics self),
             lat_stretch (finnish_metrics self), skip_bigrams (finnish_metrics self)];
          other_obj =
            [sfb (english_metrics other), scissors (english_metrics other),
             lat_stretch (english_metrics other), skip_bigrams (english_metrics other),
             sfb (finnish_metrics other), scissors (finnish_metrics other),
             lat_stretch (finnish_metrics other), skip_bigrams (finnish_metrics other)];
          better_or_equal = list_all (\<lambda>so. fst so \<le> snd so) (zip self_obj other_obj);
          strictly_better = list_ex (\<lambda>so. fst so < snd so) (zip self_obj other_obj)
      in better_or_equal \<and> strictly_better)"

section \<open>\<^verbatim>\<open>fast_non_dominated_sort\<close>\<close>

text \<open>
  The population is a Python list of references to \<^verbatim>\<open>Layout\<close> objects; the fronts are
  lists of references too. The functions take the object store and return it updated.
  \<open>inner_loop\<close> is the loop over \<^verbatim>\<open>enumerate(population)\<close> for one \<^verbatim>\<open>layout_i\<close>
  (the object behind \<open>a\<close>), \<open>outer_loop\<close> the loop around it.
\<close>

fun inner_loop :: "(nat \<Rightarrow> Layout) \<Rightarrow> nat list \<Rightarrow> nat \<Rightarrow> nat list \<Rightarrow> (nat \<Rightarrow> Layout)" where
  "inner_loop os population a [] = os"
| "inner_loop os population a (j # js) =
     (let layout_i = os a; layout_j = os (population ! j) in
        if dominates layout_i layout_j then
          inner_loop
            (os(a := layout_i\<lparr>dominated_solutions := dominated_solutions layout_i @ [j]\<rparr>))
            population a js
        else if dominates layout_j layout_i then
          inner_loop
            (os(a := layout_i\<lparr>domination_count := domination_count layout_i + 1\<rparr>))
            population a js
        else inner_loop os population a js)"

fun outer_loop ::
  "(nat \<Rightarrow> Layout) \<Rightarrow> nat list \<Rightarrow> nat list \<Rightarrow> nat list \<Rightarrow> (nat \<Rightarrow> Layout) \<times> nat list" where
  "outer_loop os population [] front0 = (os, front0)"
| "outer_loop os population (i # is) front0 =
     (let a = population ! i;
          os1 = os(a := (os a)\<lparr>domination_count := 0, dominated_solutions := []\<rparr>);
          os2 = inner_loop os1 population a [0..<length population]
      in if domination_count (os2 a) = 0
         then outer_loop (os2(a := (os2 a)\<lparr>rank := 0\<rparr>)) population is (front0 @ [a])
         else outer_loop os2 population is front0)"

text \<open>
  \<open>dec_loop\<close> is the loop over \<^verbatim>\<open>layout_i.dominated_solutions\<close>; \<^verbatim>\<open>population[j]\<close>
  raises \<^verbatim>\<open>IndexError\<close> for an index that is out of range. \<open>front_loop\<close> is the loop
  over \<^verbatim>\<open>fronts[front_index]\<close>.
\<close>

fun dec_loop ::
  "(nat \<Rightarrow> Layout) \<Rightarrow> nat list \<Rightarrow> int \<Rightarrow> nat list \<Rightarrow> nat list
     \<Rightarrow> py_error + ((nat \<Rightarrow> Layout) \<times> nat list)" where
  "dec_loop os population front_index [] next_front = Inr (os, next_front)"
| "dec_loop os population front_index (j # js) next_front =
     (if j \<ge> length population then Inl IndexError
      else
        let b = population ! j;
            os1 = os(b := (os b)\<lparr>domination_count := domination_count (os b) - 1\<rparr>)
        in if domination_count (os1 b) = 0
           then dec_loop (os1(b := (os1 b)\<lparr>rank := front_index + 1\<rparr>)) population
                  front_index js (next_front @ [b])
           else dec_loop os1 population front_index js next_front)"

fun front_loop ::
  "(nat \<Rightarrow> Layout) \<Rightarrow> nat list \<Rightarrow> int \<Rightarrow> nat list \<Rightarrow> nat list
     \<Rightarrow> py_error + ((nat \<Rightarrow> Layout) \<times> nat list)" where
  "front_loop os population front_index [] next_front = Inr (os, next_front)"
| "front_loop os population front_index (a # as) next_front =
     (case dec_loop os population front_index (dominated_solutions (os a)) next_front of
        Inl e \<Rightarrow> Inl e
      | Inr (os', next_front') \<Rightarrow> front_loop os' population front_index as next_front')"

text \<open>
  The \<^verbatim>\<open>while\<close> loop. \<^verbatim>\<open>front_index\<close> is always \<^verbatim>\<open>len(fronts) - 1\<close>, so
  \<^verbatim>\<open>fronts[front_index]\<close> is the last list of \<^verbatim>\<open>fronts\<close>: the model keeps it in \<open>cur\<close>
  and the lists before it in \<open>done\<close> (\<^verbatim>\<open>front_index\<close> is \<open>length done\<close>). The loop ends
  when \<open>cur\<close> is empty, and \<^verbatim>\<open>fronts[:-1]\<close> is \<open>done\<close>. It terminates because every
  reference that joins \<^verbatim>\<open>next_front\<close> has its \<^verbatim>\<open>domination_count\<close> go from 1 to 0:
  \<open>pos_count\<close>, the number of members with a positive count, pays for it.
\<close>

definition pos_count :: "nat list \<Rightarrow> (nat \<Rightarrow> Layout) \<Rightarrow> nat" where
  "pos_count population os = card {b \<in> set population. 1 \<le> domination_count (os b)}"

lemma pos_count_mono:
  assumes "\<And>b. b \<in> set population \<Longrightarrow> 1 \<le> domination_count (os' b) \<Longrightarrow> 1 \<le> domination_count (os b)"
  shows "pos_count population os' \<le> pos_count population os"
  unfolding pos_count_def by (rule card_mono) (use assms in auto)

lemma pos_count_drop:
  assumes "\<And>b. b \<in> set population \<Longrightarrow> 1 \<le> domination_count (os' b) \<Longrightarrow> 1 \<le> domination_count (os b)"
    and "c \<in> set population" "1 \<le> domination_count (os c)" "\<not> 1 \<le> domination_count (os' c)"
  shows "pos_count population os' < pos_count population os"
  unfolding pos_count_def by (rule psubset_card_mono) (use assms in auto)

lemma dec_loop_pos_count:
  "dec_loop os population k js nf = Inr (os', nf') \<Longrightarrow>
     pos_count population os' + length nf' \<le> pos_count population os + length nf"
proof (induction js arbitrary: os nf)
  case Nil
  then show ?case by simp
next
  case (Cons j js)
  from Cons.prems have j: "j < length population" by (simp split: if_splits)
  define b where "b = population ! j"
  define os1 where "os1 = os(b := (os b)\<lparr>domination_count := domination_count (os b) - 1\<rparr>)"
  have bin: "b \<in> set population" using j by (simp add: b_def)
  show ?case
  proof (cases "domination_count (os1 b) = 0")
    case True
    define os2 where "os2 = os1(b := (os1 b)\<lparr>rank := k + 1\<rparr>)"
    from Cons.prems j True have "dec_loop os2 population k js (nf @ [b]) = Inr (os', nf')"
      by (simp add: Let_def b_def os1_def os2_def)
    from Cons.IH[OF this] have "pos_count population os' + length nf' \<le> pos_count population os2 + length nf + 1"
      by simp
    moreover have "pos_count population os2 < pos_count population os"
      by (rule pos_count_drop[where c = b]) (use True bin in \<open>auto simp: os2_def os1_def split: if_splits\<close>)
    ultimately show ?thesis by simp
  next
    case False
    from Cons.prems j False have "dec_loop os1 population k js nf = Inr (os', nf')"
      by (simp add: Let_def b_def os1_def)
    from Cons.IH[OF this] have "pos_count population os' + length nf' \<le> pos_count population os1 + length nf" .
    moreover have "pos_count population os1 \<le> pos_count population os"
      by (rule pos_count_mono) (auto simp: os1_def split: if_splits)
    ultimately show ?thesis by simp
  qed
qed

lemma front_loop_pos_count:
  "front_loop os population k cur nf = Inr (os', nf') \<Longrightarrow>
     pos_count population os' + length nf' \<le> pos_count population os + length nf"
proof (induction cur arbitrary: os nf)
  case Nil
  then show ?case by simp
next
  case (Cons a as)
  from Cons.prems obtain os1 nf1 where
    d: "dec_loop os population k (dominated_solutions (os a)) nf = Inr (os1, nf1)"
    and f: "front_loop os1 population k as nf1 = Inr (os', nf')"
    by (auto split: sum.splits)
  from dec_loop_pos_count[OF d] Cons.IH[OF f] show ?case by simp
qed

function while_fronts ::
  "(nat \<Rightarrow> Layout) \<Rightarrow> nat list \<Rightarrow> nat list list \<Rightarrow> nat list
     \<Rightarrow> py_error + (nat list list \<times> (nat \<Rightarrow> Layout))" where
  "while_fronts os population done cur =
     (if length cur > 0 then
        (case front_loop os population (int (length done)) cur [] of
           Inl e \<Rightarrow> Inl e
         | Inr (os', next_front) \<Rightarrow> while_fronts os' population (done @ [cur]) next_front)
      else Inr (done, os))"
  by pat_completeness auto
termination
  apply (relation "measure (\<lambda>(os, population, done, cur). pos_count population os + length cur)")
   apply simp
  subgoal for os population "done" cur x2 x y
    using front_loop_pos_count[of os population "int (length done)" cur "[]" x y]
    by (cases cur) auto
  done

declare while_fronts.simps [simp del]


definition fast_non_dominated_sort ::
  "(nat \<Rightarrow> Layout) \<Rightarrow> nat list \<Rightarrow> py_error + (nat list list \<times> (nat \<Rightarrow> Layout))" where
  "fast_non_dominated_sort os population =
     (case outer_loop os population [0..<length population] [] of
        (os1, front0) \<Rightarrow> while_fronts os1 population [] front0)"

section \<open>\<^verbatim>\<open>calculate_crowding_distance\<close>\<close>

text \<open>
  One pass of the loop over \<^verbatim>\<open>objectives\<close>, for a front of more than two members.
  \<^verbatim>\<open>front.sort(key=obj_func)\<close> is a stable sort, as \<^const>\<open>sort_key\<close> is; it reorders
  the caller's list, so the new order is returned with the store.
\<close>

definition objective_step ::
  "(Layout \<Rightarrow> rat) \<Rightarrow> (nat \<Rightarrow> Layout) \<times> nat list \<Rightarrow> (nat \<Rightarrow> Layout) \<times> nat list" where
  "objective_step obj_func st =
     (case st of (os, front0) \<Rightarrow>
        let front = sort_key (\<lambda>a. obj_func (os a)) front0;
            os1 = os(front ! 0 := (os (front ! 0))\<lparr>crowding_distance := PInf\<rparr>);
            os2 = os1(last front := (os1 (last front))\<lparr>crowding_distance := PInf\<rparr>);
            obj_values = map (\<lambda>a. obj_func (os2 a)) front;
            obj_range = Max (set obj_values) - Min (set obj_values)
        in if obj_range > 0 then
             (foldl (\<lambda>os' i.
                  let distance = (obj_values ! (i + 1) - obj_values ! (i - 1)) / obj_range
                  in os'(front ! i := (os' (front ! i))
                       \<lparr>crowding_distance := add_dist (crowding_distance (os' (front ! i))) distance\<rparr>))
                os2 [1..<length front - 1],
              front)
           else (os2, front))"

definition calculate_crowding_distance ::
  "(nat \<Rightarrow> Layout) \<Rightarrow> nat list \<Rightarrow> (nat \<Rightarrow> Layout) \<times> nat list" where
  "calculate_crowding_distance os front =
     (if length front \<le> 2 then
        (foldl (\<lambda>os' a. os'(a := (os' a)\<lparr>crowding_distance := PInf\<rparr>)) os front, front)
      else
        foldl (\<lambda>st obj_func. objective_step obj_func st)
          (foldl (\<lambda>os' a. os'(a := (os' a)\<lparr>crowding_distance := Fin 0\<rparr>)) os front, front)
          objectives)"

text \<open>
  HOL's division is total (\<open>x / 0 = 0\<close>), so \<open>objective_step\<close> cannot show whether a
  division by a zero range is attempted. \<open>objective_pass\<close> is the same pass with the
  division written as Python has it: \<^verbatim>\<open>x / obj_range\<close> raises \<^verbatim>\<open>ZeroDivisionError\<close> when
  \<^verbatim>\<open>obj_range\<close> is 0. \<open>interior_loop\<close> is the loop over \<^verbatim>\<open>range(1, len(front) - 1)\<close>.
  The guard \<^verbatim>\<open>obj_range > 0\<close> keeps the error from happening: \<open>objective_pass\<close> always
  returns, and returns what \<open>objective_step\<close> computes (lemma \<open>objective_pass_eq\<close>
  below), which is why \<open>calculate_crowding_distance\<close> is written with \<open>objective_step\<close>.
\<close>

definition truediv :: "rat \<Rightarrow> rat \<Rightarrow> py_error + rat" where
  "truediv x y = (if y = 0 then Inl ZeroDivisionError else Inr (x / y))"

fun interior_loop ::
  "rat list \<Rightarrow> rat \<Rightarrow> nat list \<Rightarrow> (nat \<Rightarrow> Layout) \<Rightarrow> nat list \<Rightarrow> py_error + (nat \<Rightarrow> Layout)" where
  "interior_loop obj_values obj_range front os [] = Inr os"
| "interior_loop obj_values obj_range front os (i # rest) =
     (case truediv (obj_values ! (i + 1) - obj_values ! (i - 1)) obj_range of
        Inl e \<Rightarrow> Inl e
      | Inr distance \<Rightarrow>
          interior_loop obj_values obj_range front
            (os(front ! i := (os (front ! i))
               \<lparr>crowding_distance := add_dist (crowding_distance (os (front ! i))) distance\<rparr>))
            rest)"

definition objective_pass ::
  "(Layout \<Rightarrow> rat) \<Rightarrow> (nat \<Rightarrow> Layout) \<times> nat list
     \<Rightarrow> py_error + ((nat \<Rightarrow> Layout) \<times> nat list)" where
  "objective_pass obj_func st =
     (case st of (os, front0) \<Rightarrow>
        let front = sort_key (\<lambda>a. obj_func (os a)) front0;
            os1 = os(front ! 0 := (os (front ! 0))\<lparr>crowding_distance := PInf\<rparr>);
            os2 = os1(last front := (os1 (last front))\<lparr>crowding_distance := PInf\<rparr>);
            obj_values = map (\<lambda>a. obj_func (os2 a)) front;
            obj_range = Max (set obj_values) - Min (set obj_values)
        in if obj_range > 0 then
             (case interior_loop obj_values obj_range front os2 [1..<length front - 1] of
                Inl e \<Rightarrow> Inl e
              | Inr os3 \<Rightarrow> Inr (os3, front))
           else Inr (os2, front))"

section \<open>One generation of \<^verbatim>\<open>optimize\<close>\<close>

text \<open>
  The offspring loop. \<open>draw i\<close> is what the random source gives for the \<open>i\<close>-th member
  of the population: the value of \<^verbatim>\<open>random.random()\<close> and the two indices of
  \<^verbatim>\<open>random.sample\<close>.
\<close>

fun offspring_loop ::
  "optimizer \<Rightarrow> heap \<Rightarrow> (nat \<Rightarrow> rat \<times> nat \<times> nat) \<Rightarrow> nat \<Rightarrow> nat list \<Rightarrow> nat list
     \<Rightarrow> py_error + (nat list \<times> heap)" where
  "offspring_loop opt h draw i [] offspring = Inr (offspring, h)"
| "offspring_loop opt h draw i (layout # rest) offspring =
     (case draw i of (r, idx1, idx2) \<Rightarrow>
        if r < 8 / 10 then
          (case mutate_layout opt h layout idx1 idx2 of
             Inl e \<Rightarrow> Inl e
           | Inr (mutated, h') \<Rightarrow> offspring_loop opt h' draw (i + 1) rest (offspring @ [mutated]))
        else offspring_loop opt h draw (i + 1) rest offspring)"

text \<open>\<^verbatim>\<open>for front in fronts: self.calculate_crowding_distance(front)\<close>.\<close>

fun crowding_loop ::
  "(nat \<Rightarrow> Layout) \<Rightarrow> nat list list \<Rightarrow> (nat \<Rightarrow> Layout) \<times> nat list list" where
  "crowding_loop os [] = (os, [])"
| "crowding_loop os (front # fronts) =
     (case calculate_crowding_distance os front of (os1, front') \<Rightarrow>
      case crowding_loop os1 fronts of (os2, fronts') \<Rightarrow> (os2, front' # fronts'))"

text \<open>
  The selection of the next generation. \<open>fill_loop\<close> is the \<^verbatim>\<open>while\<close> loop that appends
  whole fronts; its condition reads \<^verbatim>\<open>fronts[front_index]\<close>, which raises
  \<^verbatim>\<open>IndexError\<close> when \<^verbatim>\<open>front_index\<close> is \<^verbatim>\<open>len(fronts)\<close>. A sort with
  \<^verbatim>\<open>reverse=True\<close> keeps the order of equal keys: it is the stable sort of the reversed
  list, reversed.
\<close>

function fill_loop ::
  "nat list list \<Rightarrow> int \<Rightarrow> nat list \<Rightarrow> nat \<Rightarrow> py_error + (nat list \<times> nat)" where
  "fill_loop fronts population_size new_population front_index =
     (if front_index \<ge> length fronts then Inl IndexError
      else if int (length new_population) + int (length (fronts ! front_index)) \<le> population_size
      then fill_loop fronts population_size (new_population @ fronts ! front_index)
             (front_index + 1)
      else Inr (new_population, front_index))"
  by pat_completeness auto
termination
  by (relation "measure (\<lambda>(fronts, population_size, new_population, front_index).
        length fronts - front_index)") auto

declare fill_loop.simps [simp del]

definition select_next_generation ::
  "(nat \<Rightarrow> Layout) \<Rightarrow> nat list list \<Rightarrow> int \<Rightarrow> py_error + nat list" where
  "select_next_generation os fronts population_size =
     (case fill_loop fronts population_size [] 0 of
        Inl e \<Rightarrow> Inl e
      | Inr (new_population, front_index) \<Rightarrow>
          if int (length new_population) < population_size then
            let remaining_front =
                  rev (sort_key (\<lambda>a. crowding_distance (os a)) (rev (fronts ! front_index)))
            in Inr (new_population @
                    take (nat (population_size - int (length new_population))) remaining_front)
          else Inr new_population)"

text \<open>
  The body of the loop over the generations, up to \<^verbatim>\<open>population = new_population\<close>:
  it returns the new population and the store.
\<close>

definition generation ::
  "optimizer \<Rightarrow> heap \<Rightarrow> nat list \<Rightarrow> (nat \<Rightarrow> rat \<times> nat \<times> nat) \<Rightarrow> int
     \<Rightarrow> py_error + (nat list \<times> heap)" where
  "generation opt h population draw population_size =
     (case offspring_loop opt h draw 0 population [] of
        Inl e \<Rightarrow> Inl e
      | Inr (offspring, h1) \<Rightarrow>
          let combined_population = population @ offspring in
          (case fast_non_dominated_sort (objs h1) combined_population of
             Inl e \<Rightarrow> Inl e
           | Inr (fronts, os2) \<Rightarrow>
               (case crowding_loop os2 fronts of (os3, fronts') \<Rightarrow>
                (case select_next_generation os3 fronts' population_size of
                   Inl e \<Rightarrow> Inl e
                 | Inr new_population \<Rightarrow> Inr (new_population, h1\<lparr>objs := os3\<rparr>)))))"

section \<open>Test inputs\<close>

text \<open>
  A store with nothing allocated, and the store after \<^verbatim>\<open>create_random_layout\<close> when
  both shuffles leave their list as it is: dictionary 0 then pairs the moveable letters
  with the moveable positions in the order of \<^verbatim>\<open>__init__\<close>. \<open>example_optimizer\<close> is
  the optimizer for the English corpus \<^verbatim>\<open>{"du": 1}\<close> and the Finnish corpus
  \<^verbatim>\<open>{"a": 1}\<close>, \<open>empty_optimizer\<close> the one for two empty corpora.
  \<open>example_parent_heap\<close> is the store after \<^verbatim>\<open>evaluate_layout\<close> has made a \<^verbatim>\<open>Layout\<close>
  object (reference 0) for dictionary 0.
\<close>

definition empty_heap :: heap where
  "empty_heap =
     \<lparr>dicts = (\<lambda>r. Map.empty), n_dicts = 0,
      objs = (\<lambda>a. \<lparr>positions = 0,
                    english_metrics = \<lparr>sfb = 0, scissors = 0, lat_stretch = 0, skip_bigrams = 0\<rparr>,
                    finnish_metrics = \<lparr>sfb = 0, scissors = 0, lat_stretch = 0, skip_bigrams = 0\<rparr>,
                    weighted_score = 0, rank = 0, crowding_distance = Fin 0,
                    domination_count = 0, dominated_solutions = []\<rparr>),
      n_objs = 0\<rparr>"

definition example_heap :: heap where
  "example_heap = snd (create_random_layout empty_heap moveable_letters moveable_positions)"

definition example_optimizer :: optimizer where
  "example_optimizer =
     \<lparr>english_bigrams = [('' d'', 1), (''du'', 1), (''u '', 1)], english_total = 3,
      finnish_bigrams = [('' a'', 1), (''a '', 1)], finnish_total = 2\<rparr>"

definition example_parent_heap :: heap where
  "example_parent_heap = snd (projr (evaluate_layout example_optimizer example_heap 0))"

definition empty_optimizer :: optimizer where
  "empty_optimizer =
     \<lparr>english_bigrams = [], english_total = 0, finnish_bigrams = [], finnish_total = 0\<rparr>"

text \<open>
  \<open>evaluated_layout\<close> is the \<^verbatim>\<open>Layout\<close> object that \<^verbatim>\<open>evaluate_layout\<close> returns.
  \<open>spec_weighted_score\<close> is the score as the specification words it: 0.8 times the sum
  of all four English components plus 0.2 times the sum of all four Finnish ones.
\<close>

definition evaluated_layout :: "optimizer \<Rightarrow> heap \<Rightarrow> nat \<Rightarrow> Layout option" where
  "evaluated_layout opt h layout_positions =
     (case evaluate_layout opt h layout_positions of
        Inl e \<Rightarrow> None
      | Inr (a, h') \<Rightarrow> Some (objs h' a))"

definition spec_weighted_score :: "Layout \<Rightarrow> rat" where
  "spec_weighted_score g =
     (8 / 10) * (sfb (english_metrics g) + scissors (english_metrics g)
                 + lat_stretch (english_metrics g) + skip_bigrams (english_metrics g))
   + (2 / 10) * (sfb (finnish_metrics g) + scissors (finnish_metrics g)
                 + lat_stretch (finnish_metrics g) + skip_bigrams (finnish_metrics g))"

text \<open>
  A valid layout: its keys are the 36 characters of the keyboard, it is a bijection
  between them and the 36 slots, and every anchor (the eleven fixed letters and the
  space key) has its position of \<^verbatim>\<open>base_layout\<close>.
\<close>

definition valid_layout :: "layout_dict \<Rightarrow> bool" where
  "valid_layout d \<longleftrightarrow>
     dom d = set (map fst base_items @ moveable_letters)
   \<and> bij_betw (\<lambda>c. the (d c)) (set (map fst base_items @ moveable_letters))
        (set (map snd base_items @ moveable_positions))
   \<and> (\<forall>cp \<in> set base_items. d (fst cp) = Some (snd cp))"

section \<open>The worked example of the bigram model\<close>

lemma bigrams_ab:
  "calculate_bigrams_from_words [(''ab'', 1)] = ([('' a'', 1), (''ab'', 1), (''b '', 1)], 3)"
  by (simp add: calculate_bigrams_from_words_def word_step_def upt_rec)

text \<open>
  Claim C1. The corpus \<^verbatim>\<open>{"ab": 1}\<close> gives exactly the bigram table
  \<^verbatim>\<open>{" a": 1, "ab": 1, "b ": 1}\<close> (in this order) and \<^verbatim>\<open>total_length = 3\<close>. For every
  layout that puts \<^verbatim>\<open>a\<close> and \<^verbatim>\<open>b\<close> on the same finger and the space key on the thumb
  row with a finger of its own, \<^verbatim>\<open>calculate_metrics\<close> returns SFB = 100/3 and
  scissors = lateral stretch = skip bigrams = 0. (Where on their finger the two letters
  sit does not matter.)
\<close>

theorem worked_example:
  assumes "layout CHR ''a'' = Some pa" and "layout CHR ''b'' = Some pb"
    and "layout CHR '' '' = Some sp"
    and "finger pa = finger pb" and "finger sp \<noteq> finger pa" and "row sp = 3"
  shows "calculate_bigrams_from_words [(''ab'', 1)] = ([('' a'', 1), (''ab'', 1), (''b '', 1)], 3)
     \<and> calculate_metrics layout (fst (calculate_bigrams_from_words [(''ab'', 1)]))
          (snd (calculate_bigrams_from_words [(''ab'', 1)]))
        = Inr \<lparr>sfb = 100 / 3, scissors = 0, lat_stretch = 0, skip_bigrams = 0\<rparr>"
  using assms
  by (simp add: bigrams_ab calculate_metrics_def accumulate_def bigram_step_def
      left_hand_def right_hand_def Let_def)

theorem worked_example_witness:
  "calculate_bigrams_from_words [(''ab'', 1)] = ([('' a'', 1), (''ab'', 1), (''b '', 1)], 3)
     \<and> calculate_metrics (base_layout(CHR ''b'' \<mapsto> pos 2 9 9))
          (fst (calculate_bigrams_from_words [(''ab'', 1)]))
          (snd (calculate_bigrams_from_words [(''ab'', 1)]))
        = Inr \<lparr>sfb = 100 / 3, scissors = 0, lat_stretch = 0, skip_bigrams = 0\<rparr>"
  by (rule worked_example[where pa = "pos 1 9 9" and pb = "pos 2 9 9" and sp = "pos 3 6 6"])
     (simp_all add: base_layout_def base_items_def pos_def)

section \<open>The weighted score\<close>

lemma load_example:
  "load_language_data [(''du'', 1)] [(''a'', 1)] = Inr example_optimizer"
  by (simp add: load_language_data_def calculate_bigrams_from_words_def word_step_def upt_rec
      example_optimizer_def)

lemma example_heap_simps:
  "n_dicts example_heap = 1" "n_objs example_heap = 0"
  "dicts example_heap 0 CHR ''d'' = Some (pos 2 7 7)"
  "dicts example_heap 0 CHR ''u'' = Some (pos 0 8 8)"
  "dicts example_heap 0 CHR ''a'' = Some (pos 1 9 9)"
  "dicts example_heap 0 CHR '' '' = Some (pos 3 6 6)"
  by (simp_all add: example_heap_def create_random_layout_def empty_heap_def Let_def
      moveable_letters_def moveable_positions_def base_layout_def base_items_def)

lemma example_metrics:
  "calculate_metrics (dicts example_heap 0) (english_bigrams example_optimizer) (english_total example_optimizer)
     = Inr \<lparr>sfb = 0, scissors = 100 / 3, lat_stretch = 0, skip_bigrams = 100 / 3\<rparr>"
  "calculate_metrics (dicts example_heap 0) (finnish_bigrams example_optimizer) (finnish_total example_optimizer)
     = Inr \<lparr>sfb = 0, scissors = 0, lat_stretch = 0, skip_bigrams = 0\<rparr>"
  by (simp_all add: example_optimizer_def calculate_metrics_def accumulate_def bigram_step_def
      left_hand_def right_hand_def Let_def example_heap_simps pos_def)

lemma example_evaluated:
  "evaluated_layout example_optimizer example_heap 0 =
     Some \<lparr>positions = 0,
           english_metrics = \<lparr>sfb = 0, scissors = 100 / 3, lat_stretch = 0, skip_bigrams = 100 / 3\<rparr>,
           finnish_metrics = \<lparr>sfb = 0, scissors = 0, lat_stretch = 0, skip_bigrams = 0\<rparr>,
           weighted_score = 80 / 3, rank = 0, crowding_distance = Fin 0,
           domination_count = 0, dominated_solutions = []\<rparr>"
  by (simp add: evaluated_layout_def evaluate_layout_def example_metrics example_heap_simps Let_def)

text \<open>
  Claim C2, as stated, fails: for the corpora \<^verbatim>\<open>{"du": 1}\<close> and \<^verbatim>\<open>{"a": 1}\<close> and the
  unshuffled layout (\<^verbatim>\<open>d\<close> at row 2, column 7; \<^verbatim>\<open>u\<close> at row 0, column 8: a scissors
  bigram) the English metrics are (0, 100/3, 0, 100/3), the Finnish ones are all 0, and
  \<^verbatim>\<open>weighted_score\<close> is 80/3, while 0.8 times the sum of the four English components
  is 160/3.
\<close>

theorem weighted_score_counterexample:
  "map_option weighted_score (evaluated_layout example_optimizer example_heap 0) = Some (80 / 3)
   \<and> map_option spec_weighted_score (evaluated_layout example_optimizer example_heap 0) = Some (160 / 3)"
  by (simp add: example_evaluated spec_weighted_score_def)

text \<open>
  Claim C2, amended: the \<^verbatim>\<open>weighted_score\<close> of every evaluated genome is 0.8 times
  the sum of the English SFB, scissors and lateral-stretch components plus 0.2 times the
  sum of the same three Finnish components; the skip-bigram component is not part of it.
\<close>

theorem weighted_score_three_components:
  assumes "evaluated_layout opt h layout_positions = Some g"
  shows "weighted_score g =
     (8 / 10) * (sfb (english_metrics g) + scissors (english_metrics g) + lat_stretch (english_metrics g))
   + (2 / 10) * (sfb (finnish_metrics g) + scissors (finnish_metrics g) + lat_stretch (finnish_metrics g))"
  using assms
  by (auto simp: evaluated_layout_def evaluate_layout_def Let_def split: sum.splits)

theorem weighted_score_three_components_witness:
  "weighted_score (the (evaluated_layout example_optimizer example_heap 0)) =
     (8 / 10) * (sfb (english_metrics (the (evaluated_layout example_optimizer example_heap 0)))
        + scissors (english_metrics (the (evaluated_layout example_optimizer example_heap 0)))
        + lat_stretch (english_metrics (the (evaluated_layout example_optimizer example_heap 0))))
   + (2 / 10) * (sfb (finnish_metrics (the (evaluated_layout example_optimizer example_heap 0)))
        + scissors (finnish_metrics (the (evaluated_layout example_optimizer example_heap 0)))
        + lat_stretch (finnish_metrics (the (evaluated_layout example_optimizer example_heap 0))))"
  using weighted_score_three_components[of example_optimizer example_heap 0]
  by (simp add: example_evaluated)

section \<open>A corpus with total length 0\<close>

text \<open>
  Claim C3, as stated, fails: for two empty corpora \<^verbatim>\<open>load_language_data\<close> builds the
  models with \<^verbatim>\<open>total_length = 0\<close> and rejects nothing; the failure is the
  \<^verbatim>\<open>ZeroDivisionError\<close> of the percentage division inside the first metric evaluation.
\<close>

theorem empty_corpus_counterexample:
  "load_language_data [] [] = Inr empty_optimizer
   \<and> evaluate_layout empty_optimizer example_heap 0 = Inl ZeroDivisionError"
  by (simp add: load_language_data_def calculate_bigrams_from_words_def empty_optimizer_def
      evaluate_layout_def calculate_metrics_def)

text \<open>
  Claim C3, amended: a corpus with \<^verbatim>\<open>total_length = 0\<close> is not rejected before metric
  evaluation. \<^verbatim>\<open>load_language_data\<close> returns the optimizer that holds exactly the bigram
  table and the total of each corpus, a total of 0 included; every call of
  \<^verbatim>\<open>calculate_metrics\<close> with \<^verbatim>\<open>total_length = 0\<close> ends in \<^verbatim>\<open>ZeroDivisionError\<close>, whatever
  the layout and the bigram table are; and when either corpus has total 0,
  \<^verbatim>\<open>evaluate_layout\<close> on the loaded optimizer ends in that \<^verbatim>\<open>ZeroDivisionError\<close> for every
  layout (the error is passed on, not swallowed, and no metrics are produced).
\<close>

theorem zero_total_raises:
  "calculate_metrics layout bigrams 0 = Inl ZeroDivisionError
   \<and> (snd (calculate_bigrams_from_words english_words) = 0
        \<or> snd (calculate_bigrams_from_words finnish_words) = 0
      \<longrightarrow> (\<exists>opt. load_language_data english_words finnish_words = Inr opt
             \<and> english_bigrams opt = fst (calculate_bigrams_from_words english_words)
             \<and> english_total opt = snd (calculate_bigrams_from_words english_words)
             \<and> finnish_bigrams opt = fst (calculate_bigrams_from_words finnish_words)
             \<and> finnish_total opt = snd (calculate_bigrams_from_words finnish_words)
             \<and> evaluate_layout opt h layout_positions = Inl ZeroDivisionError))"
  by (auto simp: load_language_data_def evaluate_layout_def calculate_metrics_def Let_def
      split: prod.splits sum.splits)

lemma bigrams_zero_count:
  "calculate_bigrams_from_words [(''ab'', 0)] = ([('' a'', 0), (''ab'', 0), (''b '', 0)], 0)"
  by (simp add: calculate_bigrams_from_words_def word_step_def upt_rec)

theorem zero_total_raises_witness:
  "calculate_bigrams_from_words [(''ab'', 0)] = ([('' a'', 0), (''ab'', 0), (''b '', 0)], 0)
   \<and> english_total (projr (load_language_data [(''ab'', 0)] [(''a'', 1)])) = 0
   \<and> english_bigrams (projr (load_language_data [(''ab'', 0)] [(''a'', 1)]))
       = [('' a'', 0), (''ab'', 0), (''b '', 0)]
   \<and> evaluate_layout (projr (load_language_data [(''ab'', 0)] [(''a'', 1)])) example_heap 0
       = Inl ZeroDivisionError"
proof -
  have z: "snd (calculate_bigrams_from_words [(''ab'', 0)]) = 0
           \<or> snd (calculate_bigrams_from_words [(''a'', 1)]) = 0"
    by (simp add: bigrams_zero_count)
  from zero_total_raises[of "dicts example_heap 0" "[]" "[(''ab'', 0)]" "[(''a'', 1)]"
      example_heap 0] z
  obtain opt where "load_language_data [(''ab'', 0)] [(''a'', 1)] = Inr opt"
    "english_bigrams opt = fst (calculate_bigrams_from_words [(''ab'', 0)])"
    "english_total opt = snd (calculate_bigrams_from_words [(''ab'', 0)])"
    "evaluate_layout opt example_heap 0 = Inl ZeroDivisionError" by blast
  then show ?thesis by (simp add: bigrams_zero_count)
qed

section \<open>Mutation leaves the parent alone\<close>

lemma calculate_metrics_returns:
  "total_length \<noteq> 0 \<Longrightarrow> \<exists>m. calculate_metrics layout bigrams total_length = Inr m"
  by (simp add: calculate_metrics_def Let_def)

lemma evaluate_layout_returns:
  assumes "english_total opt \<noteq> 0" and "finnish_total opt \<noteq> 0"
  shows "\<exists>h'. evaluate_layout opt h p = Inr (n_objs h, h')"
proof -
  from assms obtain em fm where
    "calculate_metrics (dicts h p) (english_bigrams opt) (english_total opt) = Inr em"
    "calculate_metrics (dicts h p) (finnish_bigrams opt) (finnish_total opt) = Inr fm"
    using calculate_metrics_returns by blast
  then show ?thesis by (simp add: evaluate_layout_def Let_def)
qed

lemma mutate_layout_returns:
  assumes "english_total opt \<noteq> 0" and "finnish_total opt \<noteq> 0"
  shows "\<exists>h'. mutate_layout opt h layout idx1 idx2 = Inr (n_objs h, h')"
proof -
  obtain h2 where m: "mutate_layout opt h layout idx1 idx2 = evaluate_layout opt h2 (n_dicts h)"
    and n: "n_objs h2 = n_objs h"
    by (simp add: mutate_layout_def Let_def split: if_splits)
  from evaluate_layout_returns[OF assms, of h2 "n_dicts h"] m n show ?thesis by simp
qed

text \<open>
  Claim C10. When \<^verbatim>\<open>mutate_layout\<close> returns its child, the parent \<^verbatim>\<open>Layout\<close> object
  (its reference to the positions dictionary, both metric records, its weighted score)
  and the parent's positions dictionary are what they were before the call; so is every
  other object and dictionary that was allocated. The child is a new object, and its
  positions dictionary is a new dictionary (the deep copy).
\<close>

theorem mutate_layout_frame:
  assumes "mutate_layout opt h layout idx1 idx2 = Inr (child, h')"
    and "layout < n_objs h" and "positions (objs h layout) < n_dicts h"
  shows "objs h' layout = objs h layout
     \<and> dicts h' (positions (objs h layout)) = dicts h (positions (objs h layout))
     \<and> (\<forall>a < n_objs h. objs h' a = objs h a)
     \<and> (\<forall>r < n_dicts h. dicts h' r = dicts h r)
     \<and> child = n_objs h \<and> positions (objs h' child) = n_dicts h"
  using assms
  by (auto simp: mutate_layout_def evaluate_layout_def Let_def split: sum.splits if_splits)

lemma example_parent_heap_simps:
  "n_objs example_parent_heap = 1" "n_dicts example_parent_heap = 1"
  "positions (objs example_parent_heap 0) = 0"
  "dicts example_parent_heap = dicts example_heap"
  by (simp_all add: example_parent_heap_def evaluate_layout_def example_metrics
      example_heap_simps Let_def)

theorem mutate_layout_frame_witness:
  "objs (snd (projr (mutate_layout example_optimizer example_parent_heap 0 0 1))) 0
      = objs example_parent_heap 0
   \<and> dicts (snd (projr (mutate_layout example_optimizer example_parent_heap 0 0 1))) 0
      = dicts example_parent_heap 0
   \<and> fst (projr (mutate_layout example_optimizer example_parent_heap 0 0 1)) = 1"
proof -
  obtain h' where m: "mutate_layout example_optimizer example_parent_heap 0 0 1 = Inr (1, h')"
    using mutate_layout_returns[of example_optimizer example_parent_heap 0 0 1]
    by (auto simp: example_optimizer_def example_parent_heap_simps)
  from mutate_layout_frame[OF m] show ?thesis
    unfolding m by (simp add: example_parent_heap_simps)
qed

section \<open>Layouts stay permutations\<close>

lemma foldl_upd_notin:
  "c \<notin> set (map fst zs) \<Longrightarrow> foldl (\<lambda>d lp. d(fst lp \<mapsto> snd lp)) m zs c = m c"
  by (induction zs arbitrary: m) auto

lemma foldl_upd_nth:
  "length xs = length ys \<Longrightarrow> distinct xs \<Longrightarrow> i < length xs \<Longrightarrow>
     foldl (\<lambda>d lp. d(fst lp \<mapsto> snd lp)) m (zip xs ys) (xs ! i) = Some (ys ! i)"
proof (induction xs ys arbitrary: m i rule: list_induct2)
  case Nil
  then show ?case by simp
next
  case (Cons x xs y ys)
  show ?case
  proof (cases i)
    case 0
    have "x \<notin> set (map fst (zip xs ys))" using Cons.prems(1) Cons.hyps by simp
    then have "foldl (\<lambda>d lp. d(fst lp \<mapsto> snd lp)) (m(x \<mapsto> y)) (zip xs ys) x = (m(x \<mapsto> y)) x"
      by (rule foldl_upd_notin)
    then show ?thesis using 0 by (simp del: fun_upd_apply add: fun_upd_same)
  next
    case (Suc j)
    then show ?thesis using Cons by simp
  qed
qed

lemma foldl_upd_dom:
  "dom (foldl (\<lambda>d lp. d(fst lp \<mapsto> snd lp)) m zs) = dom m \<union> set (map fst zs)"
  by (induction zs arbitrary: m) auto

lemma distinct_keyboard:
  "distinct (map fst base_items @ moveable_letters)"
  "distinct (map snd base_items @ moveable_positions)"
  "length moveable_letters = 24" "length moveable_positions = 24"
  by (simp_all add: base_items_def moveable_letters_def moveable_positions_def pos_def)

lemma bij_betw_map_list:
  assumes "distinct xs" and "distinct (map f xs)"
  shows "bij_betw f (set xs) (set (map f xs))"
  using assms by (simp add: bij_betw_def distinct_map)

lemma random_layout_valid:
  assumes sl: "mset shuffled_letters = mset moveable_letters"
    and sp: "mset shuffled_positions = mset moveable_positions"
  shows "valid_layout (foldl (\<lambda>d lp. d(fst lp \<mapsto> snd lp)) base_layout
           (zip shuffled_letters shuffled_positions))"
proof -
  let ?d = "foldl (\<lambda>d lp. d(fst lp \<mapsto> snd lp)) base_layout (zip shuffled_letters shuffled_positions)"
  let ?f = "\<lambda>c. the (?d c)"
  let ?bc = "map fst base_items" and ?bp = "map snd base_items"
  have len: "length shuffled_letters = length shuffled_positions"
    using sl sp distinct_keyboard(3,4) by (metis size_mset)
  have set_sl: "set shuffled_letters = set moveable_letters" using sl by (rule mset_eq_setD)
  have set_sp: "set shuffled_positions = set moveable_positions" using sp by (rule mset_eq_setD)
  have dsl: "distinct shuffled_letters"
    using sl distinct_keyboard(1) by (metis distinct_append mset_eq_imp_distinct_iff)
  have dsp: "distinct shuffled_positions"
    using sp distinct_keyboard(2) by (metis distinct_append mset_eq_imp_distinct_iff)
  have keys: "set (map fst (zip shuffled_letters shuffled_positions)) = set shuffled_letters"
    using len by simp
  have disj: "set ?bc \<inter> set moveable_letters = {}" "set ?bp \<inter> set moveable_positions = {}"
    using distinct_keyboard(1,2) by auto
  have base: "\<forall>cp \<in> set base_items. ?d (fst cp) = Some (snd cp)"
  proof
    fix cp assume cp: "cp \<in> set base_items"
    then have "fst cp \<in> set ?bc" by simp
    with disj(1) set_sl have "fst cp \<notin> set (map fst (zip shuffled_letters shuffled_positions))"
      unfolding keys by auto
    then have "?d (fst cp) = base_layout (fst cp)" by (rule foldl_upd_notin)
    also have "\<dots> = Some (snd cp)"
      unfolding base_layout_def using cp distinct_keyboard(1)
      by (intro map_of_is_SomeI) simp_all
    finally show "?d (fst cp) = Some (snd cp)" .
  qed
  have m1: "map ?f ?bc = ?bp" using base by (simp add: list_eq_iff_nth_eq)
  have m2: "map ?f shuffled_letters = shuffled_positions"
    using len dsl by (simp add: list_eq_iff_nth_eq foldl_upd_nth)
  have dom_base: "dom base_layout = set ?bc" by (simp add: base_layout_def dom_map_of_conv_image_fst)
  have "dom ?d = set (?bc @ moveable_letters)"
    unfolding foldl_upd_dom keys set_sl dom_base by simp
  moreover have "bij_betw ?f (set (?bc @ shuffled_letters)) (set (map ?f (?bc @ shuffled_letters)))"
  proof (rule bij_betw_map_list)
    show "distinct (?bc @ shuffled_letters)" using distinct_keyboard(1) dsl set_sl by auto
    show "distinct (map ?f (?bc @ shuffled_letters))"
      using distinct_keyboard(2) dsp set_sp by (simp only: map_append m1 m2) auto
  qed
  then have "bij_betw ?f (set (?bc @ moveable_letters)) (set (?bp @ moveable_positions))"
    by (simp only: map_append m1 m2 set_append set_sl set_sp)
  ultimately show ?thesis using base unfolding valid_layout_def by blast
qed


lemma bij_betw_exchange:
  assumes "bij_betw f A B" and "a \<in> A" and "b \<in> A"
  shows "bij_betw (f(a := f b, b := f a)) A B"
proof -
  from assms(1) have inj: "inj_on f A" and img: "f ` A = B" by (auto simp: bij_betw_def)
  have "inj_on (f(a := f b, b := f a)) A"
    using inj assms(2,3) by (auto simp: inj_on_def)
  moreover have "(f(a := f b, b := f a)) ` A = f ` A"
  proof (rule set_eqI)
    fix y
    show "y \<in> (f(a := f b, b := f a)) ` A \<longleftrightarrow> y \<in> f ` A"
    proof
      assume "y \<in> (f(a := f b, b := f a)) ` A"
      then obtain x where "x \<in> A" "y = (f(a := f b, b := f a)) x" by blast
      then show "y \<in> f ` A" using assms(2,3) by (auto split: if_splits)
    next
      assume "y \<in> f ` A"
      then obtain x where x: "x \<in> A" "y = f x" by blast
      show "y \<in> (f(a := f b, b := f a)) ` A"
      proof (cases "x = a")
        case True
        then have "y = (f(a := f b, b := f a)) b" using x by simp
        then show ?thesis using assms(3) by blast
      next
        case False
        show ?thesis
        proof (cases "x = b")
          case True
          then have "y = (f(a := f b, b := f a)) a" using x by simp
          then show ?thesis using assms(2) by blast
        next
          case False
          with \<open>x \<noteq> a\<close> have "y = (f(a := f b, b := f a)) x" using x by simp
          then show ?thesis using x(1) by blast
        qed
      qed
    qed
  qed
  ultimately show ?thesis using img by (simp add: bij_betw_def)
qed

lemma swap_valid:
  assumes v: "valid_layout d"
    and i: "idx1 < length moveable_letters" "idx2 < length moveable_letters" "idx1 \<noteq> idx2"
  shows "valid_layout (swap_mutation d idx1 idx2)"
proof -
  let ?A = "set (map fst base_items @ moveable_letters)"
  let ?c1 = "moveable_letters ! idx1" and ?c2 = "moveable_letters ! idx2"
  let ?d' = "d(?c1 := d ?c2, ?c2 := d ?c1)"
  from v have dm: "dom d = ?A"
    and bij: "bij_betw (\<lambda>c. the (d c)) ?A (set (map snd base_items @ moveable_positions))"
    and base: "\<forall>cp \<in> set base_items. d (fst cp) = Some (snd cp)"
    by (auto simp: valid_layout_def)
  have all_in: "\<forall>c \<in> set moveable_letters. d c \<noteq> None" using dm by auto
  then have f: "filter (\<lambda>c. d c \<noteq> None) moveable_letters = moveable_letters" by simp
  have c: "?c1 \<in> set moveable_letters" "?c2 \<in> set moveable_letters" using i by simp_all
  then have cA: "?c1 \<in> ?A" "?c2 \<in> ?A" by simp_all
  have "dom ?d' = dom d" using c all_in by (auto split: if_splits)
  then have d1: "dom ?d' = ?A" using dm by simp
  have "(\<lambda>c. the (?d' c)) = (\<lambda>c. the (d c))(?c1 := the (d ?c2), ?c2 := the (d ?c1))"
    by (auto simp: fun_eq_iff)
  then have d2: "bij_betw (\<lambda>c. the (?d' c)) ?A (set (map snd base_items @ moveable_positions))"
    using bij_betw_exchange[OF bij cA] by simp
  have disj: "set (map fst base_items) \<inter> set moveable_letters = {}"
    using distinct_keyboard(1) by auto
  have d3: "\<forall>cp \<in> set base_items. ?d' (fst cp) = Some (snd cp)"
  proof
    fix cp assume cp: "cp \<in> set base_items"
    then have "fst cp \<in> set (map fst base_items)" by simp
    with disj c have "fst cp \<noteq> ?c1" "fst cp \<noteq> ?c2" by auto
    then show "?d' (fst cp) = Some (snd cp)" using base cp by simp
  qed
  from d1 d2 d3 have "valid_layout ?d'" unfolding valid_layout_def by blast
  then show ?thesis unfolding swap_mutation_def Let_def f by (simp add: distinct_keyboard(3))
qed

text \<open>
  Claim C4. The layout that \<^verbatim>\<open>create_random_layout\<close> makes is valid, whatever the two
  shuffles give (any permutations of the moveable letters and of the moveable
  positions); and the child of a parent with a valid layout has a valid layout, for
  any two different indices that \<^verbatim>\<open>random.sample\<close> may return. So every layout made by
  random initialisation or by swap mutation is a bijection between the characters and
  the slots and keeps every anchor in its place.
\<close>

theorem layouts_valid:
  "(mset shuffled_letters = mset moveable_letters
      \<and> mset shuffled_positions = mset moveable_positions
      \<and> create_random_layout h shuffled_letters shuffled_positions = (r, h1)
    \<longrightarrow> valid_layout (dicts h1 r))
   \<and> (valid_layout (dicts h (positions (objs h layout)))
      \<and> idx1 < length moveable_letters \<and> idx2 < length moveable_letters \<and> idx1 \<noteq> idx2
      \<and> mutate_layout opt h layout idx1 idx2 = Inr (child, h2)
    \<longrightarrow> valid_layout (dicts h2 (positions (objs h2 child))))"
proof (intro conjI impI)
  assume "mset shuffled_letters = mset moveable_letters
      \<and> mset shuffled_positions = mset moveable_positions
      \<and> create_random_layout h shuffled_letters shuffled_positions = (r, h1)"
  then show "valid_layout (dicts h1 r)"
    using random_layout_valid[of shuffled_letters shuffled_positions]
    by (auto simp: create_random_layout_def Let_def)
next
  assume a: "valid_layout (dicts h (positions (objs h layout)))
      \<and> idx1 < length moveable_letters \<and> idx2 < length moveable_letters \<and> idx1 \<noteq> idx2
      \<and> mutate_layout opt h layout idx1 idx2 = Inr (child, h2)"
  then have "valid_layout (swap_mutation (dicts h (positions (objs h layout))) idx1 idx2)"
    by (simp add: swap_valid)
  moreover from a have "mutate_layout opt h layout idx1 idx2 = Inr (child, h2)" by simp
  ultimately show "valid_layout (dicts h2 (positions (objs h2 child)))"
    by (auto simp: mutate_layout_def evaluate_layout_def Let_def split: sum.splits)
qed

theorem layouts_valid_witness:
  "valid_layout (dicts example_heap 0)
   \<and> valid_layout (dicts (snd (projr (mutate_layout example_optimizer example_parent_heap 0 0 1)))
        (positions (objs (snd (projr (mutate_layout example_optimizer example_parent_heap 0 0 1)))
           (fst (projr (mutate_layout example_optimizer example_parent_heap 0 0 1))))))"
proof -
  obtain r h1 where c: "create_random_layout empty_heap moveable_letters moveable_positions = (r, h1)"
    by (cases "create_random_layout empty_heap moveable_letters moveable_positions")
  then have r: "r = 0" and h1: "h1 = example_heap"
    by (simp_all add: example_heap_def create_random_layout_def empty_heap_def Let_def)
  obtain h2 where m: "mutate_layout example_optimizer example_parent_heap 0 0 1 = Inr (1, h2)"
    using mutate_layout_returns[of example_optimizer example_parent_heap 0 0 1]
    by (auto simp: example_optimizer_def example_parent_heap_simps)
  have v0: "valid_layout (dicts example_heap 0)"
    using layouts_valid[where shuffled_letters = moveable_letters
        and shuffled_positions = moveable_positions and h = empty_heap and r = r and ?h1.0 = h1]
      c r h1 by simp
  moreover have "valid_layout (dicts h2 (positions (objs h2 1)))"
    using layouts_valid[where h = example_parent_heap and layout = 0 and ?idx1.0 = 0
        and ?idx2.0 = 1 and opt = example_optimizer and child = 1 and ?h2.0 = h2] m v0
    by (simp add: example_parent_heap_simps distinct_keyboard(3))
  ultimately show ?thesis unfolding m by simp
qed

section \<open>Crowding distance\<close>

text \<open>
  Three test stores for a front \<^verbatim>\<open>[0, 1, 2]\<close>: in \<open>clone_store\<close> every genome has the
  same metrics; in \<open>flat_store\<close> the three genomes share their English SFB value and
  differ in scissors and lateral stretch.
\<close>

definition test_genome :: "rat \<Rightarrow> rat \<Rightarrow> rat \<Rightarrow> Layout" where
  "test_genome s c l =
     \<lparr>positions = 0,
      english_metrics = \<lparr>sfb = s, scissors = c, lat_stretch = l, skip_bigrams = c\<rparr>,
      finnish_metrics = \<lparr>sfb = 0, scissors = 0, lat_stretch = 0, skip_bigrams = 0\<rparr>,
      weighted_score = (8 / 10) * (s + c + l), rank = 0, crowding_distance = Fin 0,
      domination_count = 0, dominated_solutions = []\<rparr>"

definition clone_store :: "nat \<Rightarrow> Layout" where
  "clone_store a = test_genome 1 1 1"

definition flat_store :: "nat \<Rightarrow> Layout" where
  "flat_store a = (if a = 0 then test_genome 1 1 1 else if a = 1 then test_genome 1 0 2
                   else test_genome 1 2 0)"

text \<open>
  \<open>boundary_inf f os front os'\<close>: some member of the front that holds the minimum of
  the objective \<open>f\<close> over the front (in the store \<open>os\<close>) has an infinite crowding
  distance in \<open>os'\<close>, and so has some member that holds the maximum.
  \<open>ends_inf os front\<close> is the store \<open>os\<close> with the crowding distance of the first and of
  the last member of the front set to infinity.
\<close>

definition boundary_inf ::
  "(Layout \<Rightarrow> rat) \<Rightarrow> (nat \<Rightarrow> Layout) \<Rightarrow> nat list \<Rightarrow> (nat \<Rightarrow> Layout) \<Rightarrow> bool" where
  "boundary_inf f os fr os' \<longleftrightarrow>
     (\<exists>a\<in>set fr. f (os a) = Min ((\<lambda>b. f (os b)) ` set fr) \<and> crowding_distance (os' a) = PInf)
   \<and> (\<exists>a\<in>set fr. f (os a) = Max ((\<lambda>b. f (os b)) ` set fr) \<and> crowding_distance (os' a) = PInf)"

definition ends_inf :: "(nat \<Rightarrow> Layout) \<Rightarrow> nat list \<Rightarrow> nat \<Rightarrow> Layout" where
  "ends_inf os front a =
     (if a = hd front \<or> a = last front then (os a)\<lparr>crowding_distance := PInf\<rparr> else os a)"

text \<open>
  Only the crowding distance of an object is written; \<open>forget_cd\<close> compares objects up
  to it, and \<open>cd_free\<close> says that a key does not read it.
\<close>

lemma sort_key_const:
  "\<forall>a\<in>set xs. f a = c \<Longrightarrow> sort_key f xs = xs"
proof (induction xs)
  case Nil
  then show ?case by simp
next
  case (Cons x xs)
  then have IH: "sort_key f xs = xs" by simp
  have "sort_key f (x # xs) = insort_key f x (sort_key f xs)" by simp
  also have "\<dots> = insort_key f x xs" by (simp only: IH)
  also have "\<dots> = x # xs" using Cons.prems by (cases xs) simp_all
  finally show ?case .
qed

lemma sorted_map_hd_le:
  "sorted (map k xs) \<Longrightarrow> x \<in> set xs \<Longrightarrow> k (hd xs) \<le> k x"
  by (cases xs) auto

lemma sorted_map_le_last:
  "sorted (map k xs) \<Longrightarrow> x \<in> set xs \<Longrightarrow> k x \<le> k (last xs)"
  by (induction xs) (auto split: if_splits)

definition forget_cd :: "Layout \<Rightarrow> Layout" where
  "forget_cd l = l\<lparr>crowding_distance := Fin 0\<rparr>"

lemma forget_cd_update [simp]: "forget_cd (l\<lparr>crowding_distance := c\<rparr>) = forget_cd l"
  by (simp add: forget_cd_def)

definition cd_free :: "(Layout \<Rightarrow> rat) \<Rightarrow> bool" where
  "cd_free f \<longleftrightarrow> (\<forall>l c. f (l\<lparr>crowding_distance := c\<rparr>) = f l)"

lemma cd_free_forget: "cd_free f \<Longrightarrow> f l = f (forget_cd l)"
  by (simp add: cd_free_def forget_cd_def)

lemma objectives_cd_free: "f \<in> set objectives \<Longrightarrow> cd_free f"
  by (auto simp: objectives_def cd_free_def)

lemma interior_fold:
  fixes g :: "nat \<Rightarrow> rat"
  defines "upd \<equiv> (\<lambda>fr os' i. os'(fr ! i := (os' (fr ! i))
             \<lparr>crowding_distance := add_dist (crowding_distance (os' (fr ! i))) (g i)\<rparr>))"
  shows "forget_cd (foldl (upd fr) os2 ns a) = forget_cd (os2 a)
     \<and> (crowding_distance (os2 a) = PInf \<longrightarrow> crowding_distance (foldl (upd fr) os2 ns a) = PInf)"
proof (induction ns arbitrary: os2)
  case Nil
  then show ?case by simp
next
  case (Cons n ns)
  have 1: "forget_cd (upd fr os2 n a) = forget_cd (os2 a)"
    by (simp add: upd_def)
  have 2: "crowding_distance (os2 a) = PInf \<longrightarrow> crowding_distance (upd fr os2 n a) = PInf"
    by (simp add: upd_def)
  from Cons.IH[of "upd fr os2 n"] 1 2 show ?case by simp
qed

lemma assign_fold:
  "foldl (\<lambda>os' a. os'(a := (os' a)\<lparr>crowding_distance := c\<rparr>)) os front a =
     (if a \<in> set front then (os a)\<lparr>crowding_distance := c\<rparr> else os a)"
  by (induction front arbitrary: os) auto

lemma step_props:
  assumes "objective_step f (os, fr) = (os', fr')"
  shows "fr' = sort_key (\<lambda>a. f (os a)) fr"
    and "forget_cd (os' a) = forget_cd (os a)"
    and "crowding_distance (os a) = PInf \<Longrightarrow> crowding_distance (os' a) = PInf"
    and "fr \<noteq> [] \<Longrightarrow> crowding_distance (os' (hd fr')) = PInf
            \<and> crowding_distance (os' (last fr')) = PInf"
proof -
  define front where "front = sort_key (\<lambda>a. f (os a)) fr"
  define os1 where "os1 = os(front ! 0 := (os (front ! 0))\<lparr>crowding_distance := PInf\<rparr>)"
  define os2 where "os2 = os1(last front := (os1 (last front))\<lparr>crowding_distance := PInf\<rparr>)"
  define vals where "vals = map (\<lambda>a. f (os2 a)) front"
  define rng where "rng = Max (set vals) - Min (set vals)"
  define g where "g = (\<lambda>i. (vals ! (i + 1) - vals ! (i - 1)) / rng)"
  define os3 where "os3 = foldl (\<lambda>os' i. os'(front ! i := (os' (front ! i))
             \<lparr>crowding_distance := add_dist (crowding_distance (os' (front ! i))) (g i)\<rparr>))
             os2 [1..<length front - 1]"
  have "objective_step f (os, fr) = (if rng > 0 then (os3, front) else (os2, front))"
    unfolding objective_step_def Let_def prod.case os3_def g_def rng_def vals_def os2_def
      os1_def front_def by (rule refl)
  with assms have r: "fr' = front" "os' = (if rng > 0 then os3 else os2)"
    by (simp_all split: if_splits)
  show "fr' = sort_key (\<lambda>a. f (os a)) fr" using r by (simp add: front_def)
  have a2: "forget_cd (os2 a) = forget_cd (os a)" for a
    by (simp add: os2_def os1_def)
  have p2: "crowding_distance (os a) = PInf \<Longrightarrow> crowding_distance (os2 a) = PInf" for a
    by (simp add: os2_def os1_def)
  have a3: "forget_cd (os3 a) = forget_cd (os2 a)"
    and p3: "crowding_distance (os2 a) = PInf \<Longrightarrow> crowding_distance (os3 a) = PInf" for a
    unfolding os3_def using interior_fold[where fr = front and ?os2.0 = os2 and g = g and a = a]
    by simp_all
  show "forget_cd (os' a) = forget_cd (os a)"
    using r a2 a3 by simp
  show "crowding_distance (os a) = PInf \<Longrightarrow> crowding_distance (os' a) = PInf"
    using r p2 p3 by simp
  assume "fr \<noteq> []"
  then have ne: "front \<noteq> []" by (metis front_def length_sort length_0_conv)
  then have h: "front ! 0 = hd front" by (simp add: hd_conv_nth)
  have b2: "crowding_distance (os2 (hd front)) = PInf \<and> crowding_distance (os2 (last front)) = PInf"
    by (simp add: os2_def os1_def h)
  then show "crowding_distance (os' (hd fr')) = PInf \<and> crowding_distance (os' (last fr')) = PInf"
    using r p3 by simp
qed

lemma boundary_inf_cong:
  assumes "\<And>a. f (os1 a) = f (os a)" and "set fr1 = set fr"
  shows "boundary_inf f os1 fr1 os' = boundary_inf f os fr os'"
proof -
  have "(\<lambda>b. f (os1 b)) = (\<lambda>b. f (os b))" using assms(1) by (rule ext)
  then show ?thesis unfolding boundary_inf_def assms(2) assms(1) by simp
qed

lemma crowd_fold:
  assumes "\<forall>f\<in>set fs. cd_free f" and "fr \<noteq> []"
    and "foldl (\<lambda>st f. objective_step f st) (os, fr) fs = (os', fr')"
  shows "set fr' = set fr
    \<and> (\<forall>a. forget_cd (os' a) = forget_cd (os a))
    \<and> (\<forall>a. crowding_distance (os a) = PInf \<longrightarrow> crowding_distance (os' a) = PInf)
    \<and> (\<forall>f\<in>set fs. boundary_inf f os fr os')"
  using assms
proof (induction fs arbitrary: os fr)
  case Nil
  then show ?case by simp
next
  case (Cons f fs)
  obtain os1 fr1 where s: "objective_step f (os, fr) = (os1, fr1)"
    by (cases "objective_step f (os, fr)")
  note sp = step_props[OF s]
  have fr1: "set fr1 = set fr" "fr1 \<noteq> []"
    using sp(1) Cons.prems(2) by (simp, metis length_sort length_0_conv)
  from Cons.prems(3) s have rest: "foldl (\<lambda>st f. objective_step f st) (os1, fr1) fs = (os', fr')"
    by simp
  from Cons.prems(1) have free: "\<forall>f\<in>set fs. cd_free f" and freef: "cd_free f" by simp_all
  note IH = Cons.IH[OF free fr1(2) rest]
  from IH have i1: "set fr' = set fr1" by (rule conjunct1)
  from IH have i2: "\<And>a. forget_cd (os' a) = forget_cd (os1 a)" by simp
  from IH have i3: "\<And>a. crowding_distance (os1 a) = PInf \<Longrightarrow> crowding_distance (os' a) = PInf"
    by simp
  from IH have i4: "\<And>h. h \<in> set fs \<Longrightarrow> boundary_inf h os1 fr1 os'" by simp
  have eqf: "h (os1 a) = h (os a)" if "cd_free h" for h a
    using cd_free_forget[OF that, of "os1 a"] cd_free_forget[OF that, of "os a"] sp(2)[of a]
    by simp
  have srt: "sorted (map (\<lambda>a. f (os a)) fr1)" unfolding sp(1) by (rule sorted_sort_key)
  have "hd fr1 \<in> set fr1" "last fr1 \<in> set fr1" using fr1(2) by simp_all
  then have hd_in: "hd fr1 \<in> set fr" and last_in: "last fr1 \<in> set fr"
    unfolding fr1(1) by this+
  have lo: "f (os (hd fr1)) \<le> f (os b)" and hi: "f (os b) \<le> f (os (last fr1))"
    if "b \<in> set fr" for b
  proof -
    from that have b: "b \<in> set fr1" unfolding fr1(1) .
    show "f (os (hd fr1)) \<le> f (os b)" using srt b by (rule sorted_map_hd_le)
    show "f (os b) \<le> f (os (last fr1))" using srt b by (rule sorted_map_le_last)
  qed
  have mn: "f (os (hd fr1)) = Min ((\<lambda>b. f (os b)) ` set fr)"
  proof (rule Min_eqI[symmetric])
    show "finite ((\<lambda>b. f (os b)) ` set fr)" by simp
    show "f (os (hd fr1)) \<le> y" if "y \<in> (\<lambda>b. f (os b)) ` set fr" for y
    proof -
      from that obtain b where "b \<in> set fr" "y = f (os b)" by blast
      then show ?thesis using lo by simp
    qed
    show "f (os (hd fr1)) \<in> (\<lambda>b. f (os b)) ` set fr" using hd_in by (rule imageI)
  qed
  have mx: "f (os (last fr1)) = Max ((\<lambda>b. f (os b)) ` set fr)"
  proof (rule Max_eqI[symmetric])
    show "finite ((\<lambda>b. f (os b)) ` set fr)" by simp
    show "y \<le> f (os (last fr1))" if "y \<in> (\<lambda>b. f (os b)) ` set fr" for y
    proof -
      from that obtain b where "b \<in> set fr" "y = f (os b)" by blast
      then show ?thesis using hi by simp
    qed
    show "f (os (last fr1)) \<in> (\<lambda>b. f (os b)) ` set fr" using last_in by (rule imageI)
  qed
  have inf: "crowding_distance (os' (hd fr1)) = PInf" "crowding_distance (os' (last fr1)) = PInf"
    using sp(4)[OF Cons.prems(2)] i3 by simp_all
  have head: "boundary_inf f os fr os'"
    unfolding boundary_inf_def using hd_in last_in mn mx inf by blast
  have tail: "boundary_inf h os fr os'" if "h \<in> set fs" for h
  proof -
    from that have fh: "cd_free h" using free by blast
    show ?thesis using i4[OF that] boundary_inf_cong[of h os1 os fr1 fr os', OF eqf[OF fh] fr1(1)]
      by simp
  qed
  have c1: "set fr' = set fr" using i1 fr1 by simp
  have c2: "\<forall>a. forget_cd (os' a) = forget_cd (os a)" using i2 sp(2) by simp
  have c3: "\<forall>a. crowding_distance (os a) = PInf \<longrightarrow> crowding_distance (os' a) = PInf"
    using i3 sp(3) by blast
  have c4: "\<forall>h\<in>set (f # fs). boundary_inf h os fr os'" using head tail by auto
  from c1 c2 c3 c4 show ?case by blast
qed

lemma zero_range_step_aux:
  assumes "f \<in> set objectives" and "front \<noteq> []" and "\<forall>a\<in>set front. f (os a) = c"
    and "objective_step f (os, front) = (os', front')"
  shows "front' = front
     \<and> (\<forall>a. os' a = (if a = hd front \<or> a = last front
                      then (os a)\<lparr>crowding_distance := PInf\<rparr> else os a))"
proof -
  define os1 where "os1 = os(front ! 0 := (os (front ! 0))\<lparr>crowding_distance := PInf\<rparr>)"
  define os2 where "os2 = os1(last front := (os1 (last front))\<lparr>crowding_distance := PInf\<rparr>)"
  define vals where "vals = map (\<lambda>a. f (os2 a)) front"
  define rng where "rng = Max (set vals) - Min (set vals)"
  define g where "g = (\<lambda>i. (vals ! (i + 1) - vals ! (i - 1)) / rng)"
  define os3 where "os3 = foldl (\<lambda>os' i. os'(front ! i := (os' (front ! i))
             \<lparr>crowding_distance := add_dist (crowding_distance (os' (front ! i))) (g i)\<rparr>))
             os2 [1..<length front - 1]"
  have srt: "sort_key (\<lambda>a. f (os a)) front = front"
    using assms(3) by (rule sort_key_const)
  have "objective_step f (os, front) = (if rng > 0 then (os3, front) else (os2, front))"
    unfolding objective_step_def Let_def prod.case srt
    unfolding os3_def g_def rng_def vals_def os2_def os1_def by (rule refl)
  moreover have "rng = 0"
  proof -
    have free: "cd_free f" using assms(1) by (rule objectives_cd_free)
    have "f (os2 a) = f (os a)" for a
      using free by (simp add: os2_def os1_def cd_free_def)
    then have "set vals = (\<lambda>a. f (os a)) ` set front" by (simp add: vals_def)
    also have "\<dots> = {c}" using assms(2,3) by (cases front) auto
    finally show ?thesis by (simp add: rng_def)
  qed
  ultimately have r: "front' = front" "os' = os2" using assms(4) by simp_all
  have h: "front ! 0 = hd front" using assms(2) by (simp add: hd_conv_nth)
  show ?thesis using r by (auto simp: os2_def os1_def h)
qed

lemma zero_range_step_eq:
  assumes "f \<in> set objectives" and "front \<noteq> []" and "\<forall>a\<in>set front. f (os a) = c"
  shows "objective_step f (os, front) = (ends_inf os front, front)"
proof -
  obtain os' front' where s: "objective_step f (os, front) = (os', front')"
    by (cases "objective_step f (os, front)")
  from zero_range_step_aux[OF assms s] show ?thesis
    unfolding s by (auto simp: ends_inf_def fun_eq_iff)
qed

lemma ends_inf_idem: "ends_inf (ends_inf os front) front = ends_inf os front"
  by (auto simp: ends_inf_def fun_eq_iff)

lemma zero_range_fold:
  assumes "fs \<noteq> []" and "front \<noteq> []"
    and "\<forall>f\<in>set fs. f \<in> set objectives \<and> (\<exists>c. \<forall>a\<in>set front. f (os a) = c)"
  shows "foldl (\<lambda>st f. objective_step f st) (os, front) fs = (ends_inf os front, front)"
  using assms
proof (induction fs arbitrary: os)
  case Nil
  then show ?case by simp
next
  case (Cons f fs)
  from Cons.prems(3) have f: "f \<in> set objectives" by simp
  from Cons.prems(3) obtain c where c: "\<forall>a\<in>set front. f (os a) = c" by auto
  have s: "objective_step f (os, front) = (ends_inf os front, front)"
    using f Cons.prems(2) c by (rule zero_range_step_eq)
  show ?case
  proof (cases "fs = []")
    case True
    then show ?thesis using s by simp
  next
    case False
    have "\<forall>h\<in>set fs. h \<in> set objectives
            \<and> (\<exists>c. \<forall>a\<in>set front. h (ends_inf os front a) = c)"
    proof
      fix h assume h: "h \<in> set fs"
      with Cons.prems(3) have ho: "h \<in> set objectives" by simp
      from h Cons.prems(3) have "\<exists>d. \<forall>a\<in>set front. h (os a) = d" by simp
      then obtain d where d: "\<forall>a\<in>set front. h (os a) = d" ..
      have e: "h (ends_inf os front b) = h (os b)" for b
        using objectives_cd_free[OF ho] by (simp add: ends_inf_def cd_free_def)
      have "\<forall>a\<in>set front. h (ends_inf os front a) = d" unfolding e by (rule d)
      then show "h \<in> set objectives \<and> (\<exists>c. \<forall>a\<in>set front. h (ends_inf os front a) = c)"
        using ho by blast
    qed
    from Cons.IH[OF False Cons.prems(2) this] s show ?thesis
      by (simp add: ends_inf_idem)
  qed
qed

lemma clone_crowding:
  "calculate_crowding_distance clone_store [0, 1, 2] =
     (ends_inf (foldl (\<lambda>os' a. os'(a := (os' a)\<lparr>crowding_distance := Fin 0\<rparr>)) clone_store
        [0, 1, 2]) [0, 1, 2], [0, 1, 2])"
proof -
  let ?os0 = "foldl (\<lambda>os' a. os'(a := (os' a)\<lparr>crowding_distance := Fin 0\<rparr>)) clone_store [0, 1, 2]"
  have c: "\<forall>f\<in>set objectives. f \<in> set objectives
             \<and> (\<exists>c. \<forall>a\<in>set [0, 1, 2]. f (?os0 a) = c)"
    by (simp add: objectives_def clone_store_def test_genome_def)
  have n: "objectives \<noteq> []" "[0, 1, 2::nat] \<noteq> []" by (simp_all add: objectives_def)
  have "foldl (\<lambda>st f. objective_step f st) (?os0, [0, 1, 2]) objectives
       = (ends_inf ?os0 [0, 1, 2], [0, 1, 2])"
    using n c by (rule zero_range_fold)
  then show ?thesis by (simp add: calculate_crowding_distance_def)
qed

text \<open>
  Claim C7, as stated, fails when genomes tie for an extreme value: in a front of three
  genomes with the same metrics, each of them holds the minimum and the maximum of
  every objective, and the one in the middle ends with crowding distance 0.
\<close>

theorem tied_extreme_counterexample:
  "clone_store 0 = clone_store 1 \<and> clone_store 1 = clone_store 2
   \<and> crowding_distance (fst (calculate_crowding_distance clone_store [0, 1, 2]) 0) = PInf
   \<and> crowding_distance (fst (calculate_crowding_distance clone_store [0, 1, 2]) 1) = Fin 0
   \<and> crowding_distance (fst (calculate_crowding_distance clone_store [0, 1, 2]) 2) = PInf"
  unfolding clone_crowding
  by (simp add: ends_inf_def assign_fold clone_store_def test_genome_def)

text \<open>
  Claim C7, amended: after \<^verbatim>\<open>calculate_crowding_distance\<close>, every member of a front of
  at most 2 members has an infinite crowding distance; in a front of more than 2
  members, for every one of the 8 objectives, at least one genome that holds the minimum
  of that objective and at least one that holds the maximum (the first and the last of
  the front in the stable sort by that objective) have an infinite crowding distance.
\<close>

theorem crowding_boundaries:
  assumes "calculate_crowding_distance os front = (os', front')"
  shows "(length front \<le> 2 \<longrightarrow> (\<forall>a\<in>set front. crowding_distance (os' a) = PInf))
     \<and> (length front > 2 \<longrightarrow> (\<forall>f\<in>set objectives. boundary_inf f os front os'))"
proof (intro conjI impI)
  assume "length front \<le> 2"
  with assms have "os' = foldl (\<lambda>os' a. os'(a := (os' a)\<lparr>crowding_distance := PInf\<rparr>)) os front"
    by (auto simp: calculate_crowding_distance_def)
  then show "\<forall>a\<in>set front. crowding_distance (os' a) = PInf"
    by (simp add: assign_fold)
next
  assume len: "length front > 2"
  define os0 where "os0 = foldl (\<lambda>os' a. os'(a := (os' a)\<lparr>crowding_distance := Fin 0\<rparr>)) os front"
  from len assms have f: "foldl (\<lambda>st f. objective_step f st) (os0, front) objectives = (os', front')"
    by (auto simp: calculate_crowding_distance_def os0_def)
  have ne: "front \<noteq> []" using len by auto
  have free: "\<forall>f\<in>set objectives. cd_free f" using objectives_cd_free by blast
  from crowd_fold[OF free ne f] have b: "\<And>h. h \<in> set objectives \<Longrightarrow> boundary_inf h os0 front os'"
    by simp
  have e: "h (os0 a) = h (os a)" if "cd_free h" for h a
    using that by (simp add: os0_def assign_fold cd_free_def)
  show "\<forall>f\<in>set objectives. boundary_inf f os front os'"
  proof
    fix h assume h: "h \<in> set objectives"
    then have "cd_free h" by (rule objectives_cd_free)
    from boundary_inf_cong[of h os0 os front front os', OF e[OF this] refl] b[OF h]
    show "boundary_inf h os front os'" by simp
  qed
qed

theorem crowding_boundaries_witness:
  "crowding_distance (fst (calculate_crowding_distance clone_store [0, 1]) 0) = PInf
   \<and> crowding_distance (fst (calculate_crowding_distance clone_store [0, 1]) 1) = PInf
   \<and> boundary_inf (objectives ! 0) clone_store [0, 1, 2]
        (fst (calculate_crowding_distance clone_store [0, 1, 2]))"
  using crowding_boundaries[of clone_store "[0, 1]", OF prod.collapse[symmetric]]
    crowding_boundaries[of clone_store "[0, 1, 2]", OF prod.collapse[symmetric]]
  by (simp add: objectives_def)

text \<open>
  Claim C8, as stated, fails: the pass for an objective of zero range still sorts the
  front and sets the crowding distance of its first and last member to infinity. In
  \<open>flat_store\<close> the three English SFB values are equal, and the pass for that objective
  changes the crowding distance of genome 0 from 0 to infinity.
\<close>

theorem zero_range_counterexample:
  "sfb (english_metrics (flat_store 0)) = 1 \<and> sfb (english_metrics (flat_store 1)) = 1
   \<and> sfb (english_metrics (flat_store 2)) = 1
   \<and> crowding_distance (flat_store 0) = Fin 0
   \<and> crowding_distance (fst (objective_step (objectives ! 0) (flat_store, [0, 1, 2])) 0) = PInf"
  by (simp add: objective_step_def objectives_def Let_def flat_store_def test_genome_def)

lemma interior_loop_zero:
  "interior_loop obj_values 0 front os (i # rest) = Inl ZeroDivisionError"
  by (simp add: truediv_def)

lemma interior_loop_eq:
  "obj_range \<noteq> 0 \<Longrightarrow>
     interior_loop obj_values obj_range front os ns =
       Inr (foldl (\<lambda>os' i.
                let distance = (obj_values ! (i + 1) - obj_values ! (i - 1)) / obj_range
                in os'(front ! i := (os' (front ! i))
                     \<lparr>crowding_distance := add_dist (crowding_distance (os' (front ! i))) distance\<rparr>))
              os ns)"
  by (induction ns arbitrary: os) (simp_all add: truediv_def Let_def)

lemma objective_pass_eq: "objective_pass f st = Inr (objective_step f st)"
proof (cases st)
  case (Pair os front0)
  define front where "front = sort_key (\<lambda>a. f (os a)) front0"
  define os1 where "os1 = os(front ! 0 := (os (front ! 0))\<lparr>crowding_distance := PInf\<rparr>)"
  define os2 where "os2 = os1(last front := (os1 (last front))\<lparr>crowding_distance := PInf\<rparr>)"
  define vals where "vals = map (\<lambda>a. f (os2 a)) front"
  define rng where "rng = Max (set vals) - Min (set vals)"
  define os3 where "os3 = foldl (\<lambda>os' i.
                let distance = (vals ! (i + 1) - vals ! (i - 1)) / rng
                in os'(front ! i := (os' (front ! i))
                     \<lparr>crowding_distance := add_dist (crowding_distance (os' (front ! i))) distance\<rparr>))
              os2 [1..<length front - 1]"
  have p: "objective_pass f (os, front0) =
      (if rng > 0 then
         (case interior_loop vals rng front os2 [1..<length front - 1] of
            Inl e \<Rightarrow> Inl e | Inr os3 \<Rightarrow> Inr (os3, front))
       else Inr (os2, front))"
    unfolding objective_pass_def Let_def prod.case rng_def vals_def os2_def os1_def front_def
    by (rule refl)
  have s: "objective_step f (os, front0) = (if rng > 0 then (os3, front) else (os2, front))"
    unfolding objective_step_def Let_def prod.case os3_def rng_def vals_def os2_def os1_def
      front_def by (rule refl)
  show ?thesis
  proof (cases "rng > 0")
    case True
    then have "rng \<noteq> 0" by simp
    from interior_loop_eq[OF this, of vals front os2 "[1..<length front - 1]"]
    have "interior_loop vals rng front os2 [1..<length front - 1] = Inr os3"
      by (simp add: os3_def)
    then show ?thesis unfolding Pair p s using True by simp
  next
    case False
    then show ?thesis unfolding Pair p s by simp
  qed
qed

text \<open>
  Claim C8, amended: the pass for an objective whose values over the front are all
  equal returns without error (no division by the zero range is performed: in the
  model such a division raises \<^verbatim>\<open>ZeroDivisionError\<close>) and adds nothing to any crowding
  distance; the order of the front stays as it is, the first and the last member of the
  front get an infinite crowding distance, and no other object changes.
\<close>

theorem zero_range_step:
  assumes "f \<in> set objectives" and "front \<noteq> []" and "\<forall>a\<in>set front. f (os a) = c"
  shows "\<exists>os'. objective_pass f (os, front) = Inr (os', front)
     \<and> objective_step f (os, front) = (os', front)
     \<and> (\<forall>a. os' a = (if a = hd front \<or> a = last front
                      then (os a)\<lparr>crowding_distance := PInf\<rparr> else os a))"
proof -
  obtain os' front' where s: "objective_step f (os, front) = (os', front')"
    by (cases "objective_step f (os, front)")
  from zero_range_step_aux[OF assms s] have "front' = front"
    and "\<forall>a. os' a = (if a = hd front \<or> a = last front
                      then (os a)\<lparr>crowding_distance := PInf\<rparr> else os a)" by simp_all
  then show ?thesis using s by (simp add: objective_pass_eq)
qed

theorem zero_range_step_witness:
  "objective_pass (objectives ! 0) (flat_store, [0, 1, 2])
      = Inr (objective_step (objectives ! 0) (flat_store, [0, 1, 2]))
   \<and> snd (objective_step (objectives ! 0) (flat_store, [0, 1, 2])) = [0, 1, 2]
   \<and> fst (objective_step (objectives ! 0) (flat_store, [0, 1, 2])) 1 = flat_store 1
   \<and> fst (objective_step (objectives ! 0) (flat_store, [0, 1, 2])) 0
       = (flat_store 0)\<lparr>crowding_distance := PInf\<rparr>"
proof -
  have a: "objectives ! 0 \<in> set objectives" "[0, 1, 2::nat] \<noteq> []"
    "\<forall>a\<in>set [0, 1, 2]. (objectives ! 0) (flat_store a) = 1"
    by (simp_all add: objectives_def flat_store_def test_genome_def)
  from zero_range_step[OF a] obtain os' where
    "objective_pass (objectives ! 0) (flat_store, [0, 1, 2]) = Inr (os', [0, 1, 2])"
    "objective_step (objectives ! 0) (flat_store, [0, 1, 2]) = (os', [0, 1, 2])"
    "\<forall>a. os' a = (if a = hd [0, 1, 2] \<or> a = last [0, 1, 2]
                      then (flat_store a)\<lparr>crowding_distance := PInf\<rparr> else flat_store a)"
    by blast
  then show ?thesis by simp
qed

section \<open>The fronts of the non-dominated sort\<close>

text \<open>
  The sort reads only the two metric records of an object (\<open>mets\<close>) and writes only
  \<^verbatim>\<open>domination_count\<close>, \<^verbatim>\<open>dominated_solutions\<close> and \<^verbatim>\<open>rank\<close>, so domination between two
  objects is the same in every store the sort goes through (\<open>same_mets\<close>).
\<close>

definition mets :: "Layout \<Rightarrow> LayoutMetrics \<times> LayoutMetrics" where
  "mets l = (english_metrics l, finnish_metrics l)"

lemma mets_update [simp]:
  "mets (l\<lparr>domination_count := c\<rparr>) = mets l"
  "mets (l\<lparr>dominated_solutions := s\<rparr>) = mets l"
  "mets (l\<lparr>rank := r\<rparr>) = mets l"
  "mets (l\<lparr>crowding_distance := d\<rparr>) = mets l"
  by (simp_all add: mets_def)

lemma dominates_iff:
  "dominates a b \<longleftrightarrow>
     (\<forall>f\<in>set objectives. f a \<le> f b) \<and> (\<exists>f\<in>set objectives. f a < f b)"
  by (simp add: dominates_def objectives_def Let_def)

lemma dominates_mets:
  "mets a = mets a' \<Longrightarrow> mets b = mets b' \<Longrightarrow> dominates a b = dominates a' b'"
  by (simp add: dominates_def mets_def Let_def)

lemma dominates_irrefl: "\<not> dominates a a"
  by (simp add: dominates_iff)

lemma dominates_trans: "dominates a b \<Longrightarrow> dominates b c \<Longrightarrow> dominates a c"
  unfolding dominates_iff by (meson order_trans less_le_trans)

lemma dominates_asym: "dominates a b \<Longrightarrow> \<not> dominates b a"
  using dominates_trans dominates_irrefl by blast

lemma dominates_fun_upd:
  "mets l = mets (os a) \<Longrightarrow>
     dominates ((os(a := l)) b) ((os(a := l)) c) = dominates (os b) (os c)"
  by (rule dominates_mets) simp_all

lemma inner_loop_result:
  "inner_loop os population a js =
     os(a := (os a)\<lparr>
        dominated_solutions :=
          dominated_solutions (os a) @ filter (\<lambda>j. dominates (os a) (os (population ! j))) js,
        domination_count :=
          domination_count (os a)
          + int (length (filter (\<lambda>j. dominates (os (population ! j)) (os a)) js))\<rparr>)"
proof (induction js arbitrary: os)
  case Nil
  then show ?case by simp
next
  case (Cons j js)
  let ?li = "os a" and ?lj = "os (population ! j)"
  show ?case
  proof (cases "dominates ?li ?lj")
    case True
    then have n: "\<not> dominates ?lj ?li" by (rule dominates_asym)
    let ?os1 = "os(a := ?li\<lparr>dominated_solutions := dominated_solutions ?li @ [j]\<rparr>)"
    have e: "dominates (?os1 b) (?os1 c) = dominates (os b) (os c)" for b c
      by (rule dominates_fun_upd) simp
    have "inner_loop os population a (j # js) = inner_loop ?os1 population a js"
      using True by (simp add: Let_def)
    also have "\<dots> = ?os1(a := (?os1 a)\<lparr>
        dominated_solutions :=
          dominated_solutions (?os1 a) @ filter (\<lambda>j. dominates (?os1 a) (?os1 (population ! j))) js,
        domination_count :=
          domination_count (?os1 a)
          + int (length (filter (\<lambda>j. dominates (?os1 (population ! j)) (?os1 a)) js))\<rparr>)"
      by (rule Cons.IH)
    finally show ?thesis unfolding e using True n by simp
  next
    case False
    show ?thesis
    proof (cases "dominates ?lj ?li")
      case True
      let ?os1 = "os(a := ?li\<lparr>domination_count := domination_count ?li + 1\<rparr>)"
      have e: "dominates (?os1 b) (?os1 c) = dominates (os b) (os c)" for b c
        by (rule dominates_fun_upd) simp
      have "inner_loop os population a (j # js) = inner_loop ?os1 population a js"
        using True False by (simp add: Let_def)
      also have "\<dots> = ?os1(a := (?os1 a)\<lparr>
        dominated_solutions :=
          dominated_solutions (?os1 a) @ filter (\<lambda>j. dominates (?os1 a) (?os1 (population ! j))) js,
        domination_count :=
          domination_count (?os1 a)
          + int (length (filter (\<lambda>j. dominates (?os1 (population ! j)) (?os1 a)) js))\<rparr>)"
        by (rule Cons.IH)
      finally show ?thesis unfolding e using True False by (simp add: ac_simps)
    next
      case F2: False
      then show ?thesis using False by (simp add: Cons.IH Let_def)
    qed
  qed
qed


lemma filter_index_length:
  "length (filter (\<lambda>j. Q (xs ! j)) [0..<length xs]) = length (filter Q xs)"
proof -
  have "filter Q xs = filter Q (map (\<lambda>j. xs ! j) [0..<length xs])" by (simp add: map_nth)
  also have "\<dots> = map (\<lambda>j. xs ! j) (filter (\<lambda>j. Q (xs ! j)) [0..<length xs])"
    by (simp add: filter_map comp_def)
  finally show ?thesis by simp
qed

lemma filter_index_map:
  "map (\<lambda>j. xs ! j) (filter (\<lambda>j. Q (xs ! j)) [0..<length xs]) = filter Q xs"
proof -
  have "filter Q xs = filter Q (map (\<lambda>j. xs ! j) [0..<length xs])" by (simp add: map_nth)
  also have "\<dots> = map (\<lambda>j. xs ! j) (filter (\<lambda>j. Q (xs ! j)) [0..<length xs])"
    by (simp add: filter_map comp_def)
  finally show ?thesis by simp
qed

definition same_mets :: "(nat \<Rightarrow> Layout) \<Rightarrow> (nat \<Rightarrow> Layout) \<Rightarrow> bool" where
  "same_mets os os' \<longleftrightarrow> (\<forall>a. mets (os' a) = mets (os a))"

lemma same_mets_refl [simp]: "same_mets os os"
  by (simp add: same_mets_def)

lemma same_mets_trans: "same_mets os os1 \<Longrightarrow> same_mets os1 os2 \<Longrightarrow> same_mets os os2"
  by (simp add: same_mets_def)

lemma same_mets_dominates:
  "same_mets os os' \<Longrightarrow> dominates (os' a) (os' b) = dominates (os a) (os b)"
  by (rule dominates_mets) (simp_all add: same_mets_def)

lemma same_mets_upd:
  "mets l = mets (os a) \<Longrightarrow> same_mets os (os(a := l))"
  by (simp add: same_mets_def)

text \<open>What one pass of the outer loop does to the object behind \<open>a\<close>.\<close>

definition counted :: "(nat \<Rightarrow> Layout) \<Rightarrow> nat list \<Rightarrow> nat \<Rightarrow> Layout \<Rightarrow> bool" where
  "counted os pop a l \<longleftrightarrow>
     mets l = mets (os a)
   \<and> domination_count l = int (length (filter (\<lambda>b. dominates (os b) (os a)) pop))
   \<and> dominated_solutions l = filter (\<lambda>j. dominates (os a) (os (pop ! j))) [0..<length pop]"

lemma counted_cong:
  "same_mets os os' \<Longrightarrow> counted os' pop a l = counted os pop a l"
  by (simp add: counted_def same_mets_dominates) (simp add: same_mets_def)

lemma outer_pass:
  fixes os :: "nat \<Rightarrow> Layout"
  defines "os1 \<equiv> \<lambda>a. os(a := (os a)\<lparr>domination_count := 0, dominated_solutions := []\<rparr>)"
  shows "counted os pop a (inner_loop (os1 a) pop a [0..<length pop] a)"
    and "b \<noteq> a \<Longrightarrow> inner_loop (os1 a) pop a [0..<length pop] b = os b"
proof -
  have e: "dominates (os1 a b) (os1 a c) = dominates (os b) (os c)" for b c
    unfolding os1_def by (rule dominates_fun_upd) simp
  have v: "os1 a a = (os a)\<lparr>domination_count := 0, dominated_solutions := []\<rparr>"
    by (simp add: os1_def)
  show "counted os pop a (inner_loop (os1 a) pop a [0..<length pop] a)"
    unfolding inner_loop_result e counted_def
    by (simp add: v filter_index_length[of "\<lambda>b. dominates (os b) (os a)" pop])
  show "b \<noteq> a \<Longrightarrow> inner_loop (os1 a) pop a [0..<length pop] b = os b"
    unfolding inner_loop_result by (simp add: os1_def)
qed


lemma counted_rank [simp]: "counted os pop a (l\<lparr>rank := r\<rparr>) = counted os pop a l"
  by (simp add: counted_def)

lemma outer_loop_result:
  assumes "distinct (map (\<lambda>i. pop ! i) ixs)" and "outer_loop os pop ixs front0 = (os', front0')"
  shows "same_mets os os'
     \<and> (\<forall>i\<in>set ixs. counted os pop (pop ! i) (os' (pop ! i)))
     \<and> (\<forall>b. b \<notin> set (map (\<lambda>i. pop ! i) ixs) \<longrightarrow> os' b = os b)
     \<and> front0' = front0 @ filter (\<lambda>b. domination_count (os' b) = 0) (map (\<lambda>i. pop ! i) ixs)"
  using assms
proof (induction ixs arbitrary: os front0)
  case Nil
  then show ?case by simp
next
  case (Cons i ixs)
  define a where "a = pop ! i"
  define os2 where "os2 = inner_loop
      (os(a := (os a)\<lparr>domination_count := 0, dominated_solutions := []\<rparr>)) pop a [0..<length pop]"
  define os3 where "os3 = (if domination_count (os2 a) = 0 then os2(a := (os2 a)\<lparr>rank := 0\<rparr>) else os2)"
  define front1 where "front1 = (if domination_count (os2 a) = 0 then front0 @ [a] else front0)"
  have c2: "counted os pop a (os2 a)" and o2: "\<And>b. b \<noteq> a \<Longrightarrow> os2 b = os b"
    unfolding os2_def by (rule outer_pass)+
  have c3: "counted os pop a (os3 a)" and o3: "\<And>b. b \<noteq> a \<Longrightarrow> os3 b = os b"
    and d3: "domination_count (os3 a) = domination_count (os2 a)"
    using c2 o2 by (simp_all add: os3_def)
  have sm: "same_mets os os3"
    unfolding same_mets_def
  proof
    fix b show "mets (os3 b) = mets (os b)"
      using c3 o3[of b] by (cases "b = a") (simp_all add: counted_def)
  qed
  from Cons.prems(2) have rec: "outer_loop os3 pop ixs front1 = (os', front0')"
    by (simp add: Let_def a_def os2_def os3_def front1_def split: if_splits)
  from Cons.prems(1) have dist: "distinct (map (\<lambda>i. pop ! i) ixs)"
    and fresh: "a \<notin> set (map (\<lambda>i. pop ! i) ixs)" by (simp_all add: a_def)
  from Cons.IH[OF dist rec] have
    i1: "same_mets os3 os'"
    and i2: "\<And>i. i \<in> set ixs \<Longrightarrow> counted os3 pop (pop ! i) (os' (pop ! i))"
    and i3: "\<And>b. b \<notin> set (map (\<lambda>i. pop ! i) ixs) \<Longrightarrow> os' b = os3 b"
    and i4: "front0' = front1 @ filter (\<lambda>b. domination_count (os' b) = 0) (map (\<lambda>i. pop ! i) ixs)"
    by simp_all
  have r1: "same_mets os os'" using sm i1 by (rule same_mets_trans)
  have oa: "os' a = os3 a" using fresh by (rule i3)
  have r2: "\<forall>j\<in>set (i # ixs). counted os pop (pop ! j) (os' (pop ! j))"
  proof
    fix j assume "j \<in> set (i # ixs)"
    then consider "j = i" | "j \<in> set ixs" by auto
    then show "counted os pop (pop ! j) (os' (pop ! j))"
    proof cases
      case 1
      then show ?thesis using c3 oa by (simp add: a_def)
    next
      case 2
      from i2[OF 2] show ?thesis unfolding counted_cong[OF sm] .
    qed
  qed
  have r3: "\<forall>b. b \<notin> set (map (\<lambda>i. pop ! i) (i # ixs)) \<longrightarrow> os' b = os b"
  proof (intro allI impI)
    fix b assume "b \<notin> set (map (\<lambda>i. pop ! i) (i # ixs))"
    then have "b \<noteq> a" "b \<notin> set (map (\<lambda>i. pop ! i) ixs)" by (simp_all add: a_def)
    then show "os' b = os b" using i3 o3 by simp
  qed
  have r4: "front0' = front0 @ filter (\<lambda>b. domination_count (os' b) = 0) (map (\<lambda>i. pop ! i) (i # ixs))"
    unfolding i4 front1_def using oa d3 by (simp add: a_def)
  from r1 r2 r3 r4 show ?case by blast
qed


definition dec_post ::
  "(nat \<Rightarrow> Layout) \<Rightarrow> nat list \<Rightarrow> nat list \<Rightarrow> (nat \<Rightarrow> Layout) \<Rightarrow> nat list \<Rightarrow> bool" where
  "dec_post os ts nf os' nf' \<longleftrightarrow>
     same_mets os os'
   \<and> (\<forall>a. dominated_solutions (os' a) = dominated_solutions (os a))
   \<and> (\<forall>b. domination_count (os' b) = domination_count (os b) - int (count_list ts b))
   \<and> set nf' = set nf \<union> {b. 1 \<le> domination_count (os b)
                                \<and> domination_count (os b) \<le> int (count_list ts b)}
   \<and> (distinct nf \<and> (\<forall>b\<in>set nf. domination_count (os b) \<le> 0) \<longrightarrow> distinct nf')"

lemma dec_post_Nil: "dec_post os [] nf os nf"
  by (auto simp: dec_post_def)

lemma dec_post_step:
  assumes os1: "os1 = os(b0 := l)" and l: "mets l = mets (os b0)"
    "dominated_solutions l = dominated_solutions (os b0)"
    "domination_count l = domination_count (os b0) - 1"
    and nf1: "nf1 = (if domination_count (os b0) = 1 then nf @ [b0] else nf)"
    and post: "dec_post os1 ts nf1 os' nf'"
  shows "dec_post os (b0 # ts) nf os' nf'"
proof -
  from post have p1: "same_mets os1 os'"
    and p2: "\<And>a. dominated_solutions (os' a) = dominated_solutions (os1 a)"
    and p3: "\<And>b. domination_count (os' b) = domination_count (os1 b) - int (count_list ts b)"
    and p4: "set nf' = set nf1 \<union> {b. 1 \<le> domination_count (os1 b)
                                \<and> domination_count (os1 b) \<le> int (count_list ts b)}"
    and p5: "distinct nf1 \<and> (\<forall>b\<in>set nf1. domination_count (os1 b) \<le> 0) \<longrightarrow> distinct nf'"
    by (simp_all add: dec_post_def)
  have c1: "domination_count (os1 b) = domination_count (os b) - (if b = b0 then 1 else 0)" for b
    by (simp add: os1 l)
  have "same_mets os os1" unfolding os1 using l(1) by (rule same_mets_upd)
  then have r1: "same_mets os os'" using p1 by (rule same_mets_trans)
  have r2: "\<forall>a. dominated_solutions (os' a) = dominated_solutions (os a)"
    using p2 by (simp add: os1 l)
  have r3: "\<forall>b. domination_count (os' b) = domination_count (os b) - int (count_list (b0 # ts) b)"
    using p3 c1 by simp
  have r4: "set nf' = set nf \<union> {b. 1 \<le> domination_count (os b)
                                \<and> domination_count (os b) \<le> int (count_list (b0 # ts) b)}"
    unfolding p4 nf1 c1 by (auto split: if_splits)
  have r5: "distinct nf \<and> (\<forall>b\<in>set nf. domination_count (os b) \<le> 0) \<longrightarrow> distinct nf'"
  proof
    assume a: "distinct nf \<and> (\<forall>b\<in>set nf. domination_count (os b) \<le> 0)"
    have "distinct nf1 \<and> (\<forall>b\<in>set nf1. domination_count (os1 b) \<le> 0)"
      unfolding nf1 c1 using a by (auto split: if_splits)
    with p5 show "distinct nf'" by simp
  qed
  from r1 r2 r3 r4 r5 show ?thesis unfolding dec_post_def by blast
qed

lemma dec_loop_result:
  assumes "\<forall>j\<in>set js. j < length pop"
  shows "\<exists>os' nf'. dec_loop os pop k js nf = Inr (os', nf')
           \<and> dec_post os (map (\<lambda>j. pop ! j) js) nf os' nf'"
  using assms
proof (induction js arbitrary: os nf)
  case Nil
  then show ?case by (simp add: dec_post_Nil)
next
  case (Cons j js)
  then have j: "j < length pop" and js: "\<forall>j\<in>set js. j < length pop" by simp_all
  define b0 where "b0 = pop ! j"
  define l where "l = (os b0)\<lparr>domination_count := domination_count (os b0) - 1\<rparr>"
  define os1 where "os1 = os(b0 := l)"
  show ?case
  proof (cases "domination_count (os b0) = 1")
    case True
    define os2 where "os2 = os(b0 := l\<lparr>rank := k + 1\<rparr>)"
    have d: "dec_loop os pop k (j # js) nf = dec_loop os2 pop k js (nf @ [b0])"
      using j True by (simp add: Let_def b0_def l_def os2_def)
    from Cons.IH[OF js, of os2 "nf @ [b0]"] obtain os' nf' where
      r: "dec_loop os2 pop k js (nf @ [b0]) = Inr (os', nf')"
      and p: "dec_post os2 (map (\<lambda>j. pop ! j) js) (nf @ [b0]) os' nf'" by blast
    have "dec_post os (b0 # map (\<lambda>j. pop ! j) js) nf os' nf'"
      by (rule dec_post_step[OF os2_def _ _ _ _ p]) (simp_all add: l_def True)
    then show ?thesis using d r by (simp add: b0_def)
  next
    case False
    have d: "dec_loop os pop k (j # js) nf = dec_loop os1 pop k js nf"
      using j False by (simp add: Let_def b0_def l_def os1_def)
    from Cons.IH[OF js, of os1 nf] obtain os' nf' where
      r: "dec_loop os1 pop k js nf = Inr (os', nf')"
      and p: "dec_post os1 (map (\<lambda>j. pop ! j) js) nf os' nf'" by blast
    have "dec_post os (b0 # map (\<lambda>j. pop ! j) js) nf os' nf'"
      by (rule dec_post_step[OF os1_def _ _ _ _ p]) (simp_all add: l_def False)
    then show ?thesis using d r by (simp add: b0_def)
  qed
qed


lemma dec_post_append:
  assumes "dec_post os ts1 nf os1 nf1" and "dec_post os1 ts2 nf1 os2 nf2"
  shows "dec_post os (ts1 @ ts2) nf os2 nf2"
proof -
  from assms(1) have p1: "same_mets os os1"
    and p2: "\<And>a. dominated_solutions (os1 a) = dominated_solutions (os a)"
    and p3: "\<And>b. domination_count (os1 b) = domination_count (os b) - int (count_list ts1 b)"
    and p4: "set nf1 = set nf \<union> {b. 1 \<le> domination_count (os b)
                                \<and> domination_count (os b) \<le> int (count_list ts1 b)}"
    and p5: "distinct nf \<and> (\<forall>b\<in>set nf. domination_count (os b) \<le> 0) \<longrightarrow> distinct nf1"
    by (simp_all add: dec_post_def)
  from assms(2) have q1: "same_mets os1 os2"
    and q2: "\<And>a. dominated_solutions (os2 a) = dominated_solutions (os1 a)"
    and q3: "\<And>b. domination_count (os2 b) = domination_count (os1 b) - int (count_list ts2 b)"
    and q4: "set nf2 = set nf1 \<union> {b. 1 \<le> domination_count (os1 b)
                                \<and> domination_count (os1 b) \<le> int (count_list ts2 b)}"
    and q5: "distinct nf1 \<and> (\<forall>b\<in>set nf1. domination_count (os1 b) \<le> 0) \<longrightarrow> distinct nf2"
    by (simp_all add: dec_post_def)
  have r1: "same_mets os os2" using p1 q1 by (rule same_mets_trans)
  have r2: "\<forall>a. dominated_solutions (os2 a) = dominated_solutions (os a)" using p2 q2 by simp
  have r3: "\<forall>b. domination_count (os2 b) = domination_count (os b) - int (count_list (ts1 @ ts2) b)"
    using p3 q3 by simp
  have r4: "set nf2 = set nf \<union> {b. 1 \<le> domination_count (os b)
                                \<and> domination_count (os b) \<le> int (count_list (ts1 @ ts2) b)}"
    unfolding q4 p4 p3 by auto
  have r5: "distinct nf \<and> (\<forall>b\<in>set nf. domination_count (os b) \<le> 0) \<longrightarrow> distinct nf2"
  proof
    assume a: "distinct nf \<and> (\<forall>b\<in>set nf. domination_count (os b) \<le> 0)"
    with p5 have "distinct nf1" by simp
    moreover have "\<forall>b\<in>set nf1. domination_count (os1 b) \<le> 0"
      unfolding p4 p3 using a by auto
    ultimately show "distinct nf2" using q5 by simp
  qed
  from r1 r2 r3 r4 r5 show ?thesis unfolding dec_post_def by blast
qed

definition targets :: "(nat \<Rightarrow> Layout) \<Rightarrow> nat list \<Rightarrow> nat list \<Rightarrow> nat list" where
  "targets os pop cur =
     concat (map (\<lambda>a. map (\<lambda>j. pop ! j) (dominated_solutions (os a))) cur)"

lemma front_loop_result:
  assumes "\<forall>a\<in>set cur. \<forall>j\<in>set (dominated_solutions (os a)). j < length pop"
  shows "\<exists>os' nf'. front_loop os pop k cur nf = Inr (os', nf')
           \<and> dec_post os (targets os pop cur) nf os' nf'"
  using assms
proof (induction cur arbitrary: os nf)
  case Nil
  then show ?case by (simp add: dec_post_Nil targets_def)
next
  case (Cons a cur)
  from Cons.prems have "\<forall>j\<in>set (dominated_solutions (os a)). j < length pop" by simp
  from dec_loop_result[OF this, of os k nf] obtain os1 nf1 where
    d: "dec_loop os pop k (dominated_solutions (os a)) nf = Inr (os1, nf1)"
    and p: "dec_post os (map (\<lambda>j. pop ! j) (dominated_solutions (os a))) nf os1 nf1" by blast
  from p have s: "\<And>b. dominated_solutions (os1 b) = dominated_solutions (os b)"
    by (simp add: dec_post_def)
  have "\<forall>a\<in>set cur. \<forall>j\<in>set (dominated_solutions (os1 a)). j < length pop"
    using Cons.prems by (simp add: s)
  from Cons.IH[OF this, of nf1] obtain os' nf' where
    f: "front_loop os1 pop k cur nf1 = Inr (os', nf')"
    and q: "dec_post os1 (targets os1 pop cur) nf1 os' nf'" by blast
  have t: "targets os pop (a # cur)
           = map (\<lambda>j. pop ! j) (dominated_solutions (os a)) @ targets os1 pop cur"
    by (simp add: targets_def s)
  have "dec_post os (targets os pop (a # cur)) nf os' nf'"
    unfolding t using p q by (rule dec_post_append)
  then show ?case using d f by simp
qed


lemma count_list_distinct:
  "distinct xs \<Longrightarrow> count_list xs b = (if b \<in> set xs then 1 else 0)"
  by (induction xs) auto

lemma count_list_concat_sum:
  "count_list (concat xss) b = sum_list (map (\<lambda>xs. count_list xs b) xss)"
  by (induction xss) auto

lemma sum_list_indicator:
  "distinct xs \<Longrightarrow> sum_list (map (\<lambda>a. if R a then 1 else 0) xs) = card {a \<in> set xs. R a}"
proof (induction xs)
  case Nil
  then show ?case by simp
next
  case (Cons x xs)
  then have IH: "sum_list (map (\<lambda>a. if R a then 1 else 0) xs) = card {a \<in> set xs. R a}"
    and x: "x \<notin> set xs" by simp_all
  show ?case
  proof (cases "R x")
    case True
    then have "{a \<in> set (x # xs). R a} = insert x {a \<in> set xs. R a}" by auto
    moreover have "x \<notin> {a \<in> set xs. R a}" using x by simp
    ultimately have "card {a \<in> set (x # xs). R a} = Suc (card {a \<in> set xs. R a})" by simp
    then show ?thesis using True IH by simp
  next
    case False
    then have "{a \<in> set (x # xs). R a} = {a \<in> set xs. R a}" by auto
    then show ?thesis using False IH by simp
  qed
qed

definition Dm :: "(nat \<Rightarrow> Layout) \<Rightarrow> nat list \<Rightarrow> nat \<Rightarrow> nat set" where
  "Dm os pop b = {a \<in> set pop. dominates (os a) (os b)}"

lemma finite_Dm [simp]: "finite (Dm os pop b)"
  by (simp add: Dm_def)

lemma count_targets:
  assumes "distinct pop" and "distinct cur" and "set cur \<subseteq> set pop"
    and "\<forall>a\<in>set cur. dominated_solutions (os a)
           = filter (\<lambda>j. dominates (os0 a) (os0 (pop ! j))) [0..<length pop]"
  shows "count_list (targets os pop cur) b =
           (if b \<in> set pop then card (Dm os0 pop b \<inter> set cur) else 0)"
proof -
  have t: "targets os pop cur = concat (map (\<lambda>a. filter (\<lambda>b. dominates (os0 a) (os0 b)) pop) cur)"
    unfolding targets_def
  proof (rule arg_cong[where f = concat], rule map_cong[OF refl])
    fix a assume "a \<in> set cur"
    with assms(4) have "dominated_solutions (os a)
           = filter (\<lambda>j. dominates (os0 a) (os0 (pop ! j))) [0..<length pop]" by simp
    then show "map (\<lambda>j. pop ! j) (dominated_solutions (os a))
        = filter (\<lambda>b. dominates (os0 a) (os0 b)) pop"
      by (simp only: filter_index_map[of pop "\<lambda>b. dominates (os0 a) (os0 b)"])
  qed
  have c: "count_list (filter (\<lambda>b. dominates (os0 a) (os0 b)) pop) b
           = (if b \<in> set pop \<and> dominates (os0 a) (os0 b) then 1 else 0)" for a
    using assms(1) by (simp add: count_list_distinct)
  show ?thesis
  proof (cases "b \<in> set pop")
    case True
    have "count_list (targets os pop cur) b
          = sum_list (map (\<lambda>a. if dominates (os0 a) (os0 b) then 1 else 0) cur)"
      unfolding t count_list_concat_sum using True by (simp add: c comp_def)
    also have "\<dots> = card {a \<in> set cur. dominates (os0 a) (os0 b)}"
      using assms(2) by (rule sum_list_indicator)
    also have "{a \<in> set cur. dominates (os0 a) (os0 b)} = Dm os0 pop b \<inter> set cur"
      using assms(3) by (auto simp: Dm_def)
    finally show ?thesis using True by simp
  next
    case False
    have "count_list (targets os pop cur) b = sum_list (map (\<lambda>a. 0) cur)"
      unfolding t count_list_concat_sum using False by (simp add: c comp_def)
    then show ?thesis using False by simp
  qed
qed


definition sort_inv ::
  "(nat \<Rightarrow> Layout) \<Rightarrow> nat list \<Rightarrow> (nat \<Rightarrow> Layout) \<Rightarrow> nat list list \<Rightarrow> nat list \<Rightarrow> bool" where
  "sort_inv os0 pop os fs cur \<longleftrightarrow>
     same_mets os0 os
   \<and> (\<forall>a\<in>set pop. dominated_solutions (os a)
          = filter (\<lambda>j. dominates (os0 a) (os0 (pop ! j))) [0..<length pop])
   \<and> (\<forall>b\<in>set pop. domination_count (os b) = int (card (Dm os0 pop b - set (concat fs))))
   \<and> distinct (concat fs @ cur)
   \<and> set (concat fs @ cur) = {b \<in> set pop. Dm os0 pop b \<subseteq> set (concat fs)}
   \<and> (\<forall>F\<in>set fs. \<forall>a\<in>set F. \<forall>b\<in>set F. \<not> dominates (os0 a) (os0 b))"

lemma sort_inv_step:
  assumes inv: "sort_inv os0 pop os fs cur" and dp: "distinct pop"
  shows "\<exists>os' nf. front_loop os pop k cur [] = Inr (os', nf)
           \<and> sort_inv os0 pop os' (fs @ [cur]) nf"
proof -
  let ?P = "set (concat fs)" and ?C = "set cur"
  from inv have i1: "same_mets os0 os"
    and i2: "\<And>a. a \<in> set pop \<Longrightarrow> dominated_solutions (os a)
          = filter (\<lambda>j. dominates (os0 a) (os0 (pop ! j))) [0..<length pop]"
    and i3: "\<And>b. b \<in> set pop \<Longrightarrow> domination_count (os b) = int (card (Dm os0 pop b - ?P))"
    and i4: "distinct (concat fs @ cur)"
    and i5: "set (concat fs @ cur) = {b \<in> set pop. Dm os0 pop b \<subseteq> ?P}"
    and i6: "\<And>F a b. F \<in> set fs \<Longrightarrow> a \<in> set F \<Longrightarrow> b \<in> set F \<Longrightarrow> \<not> dominates (os0 a) (os0 b)"
    unfolding sort_inv_def by blast+
  from i5 have csub: "?C \<subseteq> set pop" and psub: "?P \<subseteq> set pop" by auto
  from i4 have dc: "distinct cur" and disj: "?P \<inter> ?C = {}" by auto
  have "\<forall>a\<in>set cur. \<forall>j\<in>set (dominated_solutions (os a)). j < length pop"
    using i2 csub by auto
  from front_loop_result[OF this, of k "[]"] obtain os' nf where
    f: "front_loop os pop k cur [] = Inr (os', nf)"
    and p: "dec_post os (targets os pop cur) [] os' nf" by blast
  have cl: "count_list (targets os pop cur) b =
           (if b \<in> set pop then card (Dm os0 pop b \<inter> ?C) else 0)" for b
    using dp dc csub i2 by (intro count_targets) auto
  from p have p1: "same_mets os os'"
    and p2: "\<And>a. dominated_solutions (os' a) = dominated_solutions (os a)"
    and p3: "\<And>b. domination_count (os' b)
                = domination_count (os b) - int (count_list (targets os pop cur) b)"
    and p4: "set nf = {b. 1 \<le> domination_count (os b)
                       \<and> domination_count (os b) \<le> int (count_list (targets os pop cur) b)}"
    and p5: "distinct nf"
    by (simp_all add: dec_post_def)
  have sub: "Dm os0 pop b \<inter> ?C \<subseteq> Dm os0 pop b - ?P" for b using disj by auto
  have nf_char: "b \<in> set nf \<longleftrightarrow>
      b \<in> set pop \<and> \<not> Dm os0 pop b \<subseteq> ?P \<and> Dm os0 pop b \<subseteq> ?P \<union> ?C" for b
  proof (cases "b \<in> set pop")
    case False
    then show ?thesis unfolding p4 by (simp add: cl)
  next
    case True
    have fin: "finite (Dm os0 pop b - ?P)" by simp
    have "b \<in> set nf \<longleftrightarrow> 1 \<le> card (Dm os0 pop b - ?P)
               \<and> card (Dm os0 pop b - ?P) \<le> card (Dm os0 pop b \<inter> ?C)"
      unfolding p4 using True by (simp add: cl i3)
    also have "\<dots> \<longleftrightarrow> Dm os0 pop b - ?P \<noteq> {} \<and> Dm os0 pop b - ?P = Dm os0 pop b \<inter> ?C"
    proof
      assume a: "1 \<le> card (Dm os0 pop b - ?P)
               \<and> card (Dm os0 pop b - ?P) \<le> card (Dm os0 pop b \<inter> ?C)"
      then have "0 < card (Dm os0 pop b - ?P)" by simp
      then have "Dm os0 pop b - ?P \<noteq> {}" by (metis card_gt_0_iff)
      moreover have "Dm os0 pop b \<inter> ?C = Dm os0 pop b - ?P"
        using fin sub a by (intro card_seteq) auto
      ultimately show "Dm os0 pop b - ?P \<noteq> {} \<and> Dm os0 pop b - ?P = Dm os0 pop b \<inter> ?C"
        by simp
    next
      assume a: "Dm os0 pop b - ?P \<noteq> {} \<and> Dm os0 pop b - ?P = Dm os0 pop b \<inter> ?C"
      then have ne: "Dm os0 pop b - ?P \<noteq> {}"
        and eq: "Dm os0 pop b - ?P = Dm os0 pop b \<inter> ?C" by blast+
      from ne fin have "card (Dm os0 pop b - ?P) \<noteq> 0" by (metis card_0_eq)
      then have "1 \<le> card (Dm os0 pop b - ?P)" by linarith
      moreover have "card (Dm os0 pop b - ?P) \<le> card (Dm os0 pop b \<inter> ?C)"
        unfolding eq by (rule order_refl)
      ultimately show "1 \<le> card (Dm os0 pop b - ?P)
               \<and> card (Dm os0 pop b - ?P) \<le> card (Dm os0 pop b \<inter> ?C)" by blast
    qed
    also have "\<dots> \<longleftrightarrow> \<not> Dm os0 pop b \<subseteq> ?P \<and> Dm os0 pop b \<subseteq> ?P \<union> ?C"
      using disj by auto
    finally show ?thesis using True by simp
  qed
  have r1: "same_mets os0 os'" using i1 p1 by (rule same_mets_trans)
  have r2: "\<forall>a\<in>set pop. dominated_solutions (os' a)
          = filter (\<lambda>j. dominates (os0 a) (os0 (pop ! j))) [0..<length pop]"
    using i2 p2 by simp
  have r3: "\<forall>b\<in>set pop. domination_count (os' b)
              = int (card (Dm os0 pop b - set (concat (fs @ [cur]))))"
  proof
    fix b assume b: "b \<in> set pop"
    have e: "Dm os0 pop b - set (concat (fs @ [cur])) = (Dm os0 pop b - ?P) - (Dm os0 pop b \<inter> ?C)"
      by auto
    have "card ((Dm os0 pop b - ?P) - (Dm os0 pop b \<inter> ?C))
          = card (Dm os0 pop b - ?P) - card (Dm os0 pop b \<inter> ?C)"
      using sub by (intro card_Diff_subset) auto
    moreover have "card (Dm os0 pop b \<inter> ?C) \<le> card (Dm os0 pop b - ?P)"
      using sub by (intro card_mono) auto
    ultimately show "domination_count (os' b)
              = int (card (Dm os0 pop b - set (concat (fs @ [cur]))))"
      unfolding e p3 using b by (simp add: cl i3)
  qed
  have in_pc: "b \<in> ?P \<union> ?C \<longleftrightarrow> b \<in> set pop \<and> Dm os0 pop b \<subseteq> ?P" for b
    using i5 by auto
  have nd: "set (concat fs @ cur) \<inter> set nf = {}"
  proof (rule equals0I)
    fix b assume "b \<in> set (concat fs @ cur) \<inter> set nf"
    then have "b \<in> ?P \<union> ?C" and n: "b \<in> set nf" by simp_all
    then have "Dm os0 pop b \<subseteq> ?P" using in_pc[of b] by blast
    moreover from n have "\<not> Dm os0 pop b \<subseteq> ?P" using nf_char[of b] by blast
    ultimately show False by blast
  qed
  have "distinct ((concat fs @ cur) @ nf)"
    using i4 p5 nd by (simp only: distinct_append[of "concat fs @ cur" nf] simp_thms)
  then have r4: "distinct (concat (fs @ [cur]) @ nf)" by simp
  have r5: "set (concat (fs @ [cur]) @ nf)
            = {b \<in> set pop. Dm os0 pop b \<subseteq> set (concat (fs @ [cur]))}"
  proof (rule set_eqI)
    fix b
    have "b \<in> set (concat (fs @ [cur]) @ nf) \<longleftrightarrow> b \<in> ?P \<union> ?C \<or> b \<in> set nf" by auto
    also have "\<dots> \<longleftrightarrow> b \<in> set pop \<and> Dm os0 pop b \<subseteq> ?P \<union> ?C"
      unfolding in_pc nf_char by auto
    finally show "b \<in> set (concat (fs @ [cur]) @ nf)
        \<longleftrightarrow> b \<in> {b \<in> set pop. Dm os0 pop b \<subseteq> set (concat (fs @ [cur]))}"
      by simp
  qed
  have r6: "\<forall>F\<in>set (fs @ [cur]). \<forall>a\<in>set F. \<forall>b\<in>set F. \<not> dominates (os0 a) (os0 b)"
  proof (intro ballI)
    fix F a b assume F: "F \<in> set (fs @ [cur])" and a: "a \<in> set F" and b: "b \<in> set F"
    show "\<not> dominates (os0 a) (os0 b)"
    proof (cases "F \<in> set fs")
      case True
      then show ?thesis using a b by (rule i6)
    next
      case False
      with F have Fc: "F = cur" by simp
      show ?thesis
      proof
        assume d: "dominates (os0 a) (os0 b)"
        from a Fc csub have "a \<in> set pop" by auto
        with d have "a \<in> Dm os0 pop b" by (simp add: Dm_def)
        moreover from b Fc in_pc[of b] have "Dm os0 pop b \<subseteq> ?P" by simp
        ultimately have "a \<in> ?P" by auto
        with a Fc disj show False by auto
      qed
    qed
  qed
  from r1 r2 r3 r4 r5 r6 have "sort_inv os0 pop os' (fs @ [cur]) nf"
    unfolding sort_inv_def by blast
  with f show ?thesis by blast
qed


lemma while_fronts_result:
  assumes "sort_inv os0 pop os fs cur" and "distinct pop"
  shows "\<exists>fronts os'. while_fronts os pop fs cur = Inr (fronts, os')
           \<and> sort_inv os0 pop os' fronts []"
  using assms
proof (induction os pop fs cur rule: while_fronts.induct)
  case (1 os population fs cur)
  show ?case
  proof (cases "cur = []")
    case True
    then show ?thesis using "1.prems"(1) by (simp add: while_fronts.simps[of os population fs "[]"])
  next
    case False
    from sort_inv_step[OF "1.prems", of "int (length fs)"] obtain os1 nf where
      f: "front_loop os population (int (length fs)) cur [] = Inr (os1, nf)"
      and i: "sort_inv os0 population os1 (fs @ [cur]) nf" by blast
    from False have l: "0 < length cur" by simp
    from "1.IH"[OF l f refl i "1.prems"(2)] obtain fronts os' where
      "while_fronts os1 population (fs @ [cur]) nf = Inr (fronts, os')"
      "sort_inv os0 population os' fronts []" by blast
    then show ?thesis using False f by (simp add: while_fronts.simps[of os population fs cur])
  qed
qed

lemma Dm_card_less:
  assumes "a \<in> Dm os pop b"
  shows "card (Dm os pop a) < card (Dm os pop b)"
proof (rule psubset_card_mono)
  show "finite (Dm os pop b)" by simp
  have "Dm os pop a \<subseteq> Dm os pop b"
    using assms dominates_trans by (auto simp: Dm_def)
  moreover have "a \<notin> Dm os pop a" by (simp add: Dm_def dominates_irrefl)
  ultimately show "Dm os pop a \<subset> Dm os pop b" using assms by blast
qed

lemma closed_is_all:
  assumes "P = {b \<in> set pop. Dm os pop b \<subseteq> P}"
  shows "P = set pop"
proof -
  have "b \<in> set pop \<longrightarrow> b \<in> P" for b
  proof (induction "card (Dm os pop b)" arbitrary: b rule: less_induct)
    case less
    show ?case
    proof
      assume b: "b \<in> set pop"
      have "Dm os pop b \<subseteq> P"
      proof
        fix a assume a: "a \<in> Dm os pop b"
        then have "a \<in> set pop" by (simp add: Dm_def)
        with less[OF Dm_card_less[OF a]] show "a \<in> P" by simp
      qed
      with b assms show "b \<in> P" by blast
    qed
  qed
  with assms show ?thesis by blast
qed

lemma outer_loop_inv:
  assumes dp: "distinct pop" and o: "outer_loop os pop [0..<length pop] [] = (os1, front0)"
  shows "sort_inv os pop os1 [] front0"
proof -
  have m: "map (\<lambda>i. pop ! i) [0..<length pop] = pop" by (rule map_nth)
  from outer_loop_result[OF _ o] dp have
    r1: "same_mets os os1"
    and r2: "\<And>i. i < length pop \<Longrightarrow> counted os pop (pop ! i) (os1 (pop ! i))"
    and r4: "front0 = filter (\<lambda>b. domination_count (os1 b) = 0) pop"
    unfolding m by simp_all
  have c: "counted os pop b (os1 b)" if "b \<in> set pop" for b
    using that r2 by (auto simp: in_set_conv_nth)
  have cnt: "domination_count (os1 b) = int (card (Dm os pop b))" if "b \<in> set pop" for b
  proof -
    have "length (filter (\<lambda>a. dominates (os a) (os b)) pop)
          = card ({a. dominates (os a) (os b)} \<inter> set pop)"
      using dp by (rule distinct_length_filter)
    also have "{a. dominates (os a) (os b)} \<inter> set pop = Dm os pop b" by (auto simp: Dm_def)
    finally show ?thesis using c[OF that] by (simp add: counted_def)
  qed
  have s2: "\<forall>a\<in>set pop. dominated_solutions (os1 a)
          = filter (\<lambda>j. dominates (os a) (os (pop ! j))) [0..<length pop]"
    using c by (simp add: counted_def)
  have s3: "\<forall>b\<in>set pop. domination_count (os1 b) = int (card (Dm os pop b - set (concat [])))"
    using cnt by simp
  have s4: "distinct (concat [] @ front0)" unfolding r4 using dp by simp
  have s5: "set (concat [] @ front0) = {b \<in> set pop. Dm os pop b \<subseteq> set (concat [])}"
    unfolding r4 using cnt by auto
  show ?thesis unfolding sort_inv_def using r1 s2 s3 s4 s5 by simp
qed

lemma sort_result:
  assumes "distinct pop"
  shows "\<exists>fronts os'. fast_non_dominated_sort os pop = Inr (fronts, os')
     \<and> same_mets os os'
     \<and> distinct (concat fronts) \<and> set (concat fronts) = set pop
     \<and> (\<forall>F\<in>set fronts. \<forall>a\<in>set F. \<forall>b\<in>set F. \<not> dominates (os a) (os b))"
proof -
  obtain os1 front0 where o: "outer_loop os pop [0..<length pop] [] = (os1, front0)"
    by (cases "outer_loop os pop [0..<length pop] []")
  from outer_loop_inv[OF assms o] have "sort_inv os pop os1 [] front0" .
  from while_fronts_result[OF this assms] obtain fronts os' where
    w: "while_fronts os1 pop [] front0 = Inr (fronts, os')"
    and i: "sort_inv os pop os' fronts []" by blast
  from i have i1: "same_mets os os'" and i4: "distinct (concat fronts)"
    and i5: "set (concat fronts) = {b \<in> set pop. Dm os pop b \<subseteq> set (concat fronts)}"
    and i6: "\<forall>F\<in>set fronts. \<forall>a\<in>set F. \<forall>b\<in>set F. \<not> dominates (os a) (os b)"
    unfolding sort_inv_def by simp_all
  from i5 have "set (concat fronts) = set pop" by (rule closed_is_all)
  with w o i1 i4 i6 show ?thesis by (simp add: fast_non_dominated_sort_def)
qed

text \<open>Parts of the invariant, and the first front.\<close>

lemma sort_inv_distinct: "sort_inv os0 pop os fs cur \<Longrightarrow> distinct (concat fs @ cur)"
  unfolding sort_inv_def by blast

lemma sort_inv_set:
  "sort_inv os0 pop os fs cur \<Longrightarrow>
     set (concat fs @ cur) = {b \<in> set pop. Dm os0 pop b \<subseteq> set (concat fs)}"
  unfolding sort_inv_def by blast

lemma sort_inv_count:
  "sort_inv os0 pop os fs cur \<Longrightarrow> b \<in> set pop \<Longrightarrow>
     domination_count (os b) = int (card (Dm os0 pop b - set (concat fs)))"
  unfolding sort_inv_def by blast

lemma outer_loop_front:
  assumes dp: "distinct pop" and o: "outer_loop os pop [0..<length pop] [] = (os1, front0)"
  shows "front0 = filter (\<lambda>b. domination_count (os1 b) = 0) pop"
proof -
  have m: "map (\<lambda>i. pop ! i) [0..<length pop] = pop" by (rule map_nth)
  from outer_loop_result[OF _ o] dp show ?thesis unfolding m by simp_all
qed

lemma sort_antichain:
  assumes dp: "distinct pop" and ne: "pop \<noteq> []"
    and anti: "\<forall>a\<in>set pop. \<forall>b\<in>set pop. \<not> dominates (os a) (os b)"
  shows "\<exists>os'. fast_non_dominated_sort os pop = Inr ([pop], os')"
proof -
  obtain os1 front0 where o: "outer_loop os pop [0..<length pop] [] = (os1, front0)"
    by (cases "outer_loop os pop [0..<length pop] []")
  from outer_loop_inv[OF dp o] have inv: "sort_inv os pop os1 [] front0" .
  have cz: "domination_count (os1 b) = 0" if "b \<in> set pop" for b
  proof -
    have "Dm os pop b = {}" unfolding Dm_def using anti that by blast
    then have "card (Dm os pop b - set (concat [])) = 0" by simp
    with sort_inv_count[OF inv that] show ?thesis by (simp only: of_nat_0)
  qed
  have "filter (\<lambda>b. domination_count (os1 b) = 0) pop = pop"
    by (rule filter_True) (simp add: cz)
  with outer_loop_front[OF dp o] have f0: "front0 = pop" by (rule trans)
  from sort_inv_step[OF inv dp, of "int (length ([]::nat list list))"] obtain os2 nf where
    f: "front_loop os1 pop (int (length ([]::nat list list))) front0 [] = Inr (os2, nf)"
    and i2: "sort_inv os pop os2 ([] @ [front0]) nf" by blast
  have "distinct (concat ([] @ [front0]) @ nf)" using i2 by (rule sort_inv_distinct)
  then have d2: "distinct (front0 @ nf)" by simp
  have "set (concat ([] @ [front0]) @ nf)
          = {b \<in> set pop. Dm os pop b \<subseteq> set (concat ([] @ [front0]))}"
    using i2 by (rule sort_inv_set)
  then have "set (concat ([] @ [front0]) @ nf) \<subseteq> set pop"
    by (simp only: Collect_restrict)
  then have sub: "set nf \<subseteq> set pop" by simp
  from d2 have disj: "set pop \<inter> set nf = {}" unfolding f0 by simp
  from sub have "set nf \<subseteq> set pop \<inter> set nf" by (rule Int_greatest) (rule subset_refl)
  then have "set nf \<subseteq> {}" unfolding disj .
  then have "set nf = {}" by (simp only: subset_empty)
  then have nf: "nf = []" by (simp only: set_empty)
  have f': "front_loop os1 pop 0 pop [] = Inr (os2, [])"
    using f unfolding f0 nf by simp
  have w2: "while_fronts os2 pop [pop] [] = Inr ([pop], os2)"
    by (simp add: while_fronts.simps[of os2 pop "[pop]" "[]"])
  have "while_fronts os1 pop [] pop = Inr ([pop], os2)"
    by (subst while_fronts.simps) (simp add: ne f' w2)
  then show ?thesis unfolding fast_non_dominated_sort_def o f0 by simp
qed

text \<open>
  A population is a list of distinct objects. \<^verbatim>\<open>optimize\<close> builds every population it
  sorts from objects that \<^verbatim>\<open>evaluate_layout\<close> has just allocated: the offspring of one
  generation are new objects, distinct from one another and from every member of the
  population. The sort keeps its counts in the objects themselves, so the theorems about
  its fronts are stated for lists that name no object twice.
\<close>

lemma mutate_layout_alloc:
  assumes "mutate_layout opt h layout idx1 idx2 = Inr (child, h')"
  shows "child = n_objs h \<and> n_objs h' = n_objs h + 1"
proof -
  obtain h2 where m: "mutate_layout opt h layout idx1 idx2 = evaluate_layout opt h2 (n_dicts h)"
    and n: "n_objs h2 = n_objs h"
    by (simp add: mutate_layout_def Let_def split: if_splits)
  from assms m have "evaluate_layout opt h2 (n_dicts h) = Inr (child, h')" by simp
  then have "child = n_objs h2 \<and> n_objs h' = n_objs h2 + 1"
    by (auto simp: evaluate_layout_def Let_def split: sum.splits)
  with n show ?thesis by simp
qed

lemma offspring_loop_fresh:
  assumes "offspring_loop opt h draw i population offspring = Inr (offspring', h')"
  shows "\<exists>new. offspring' = offspring @ new \<and> distinct new
           \<and> (\<forall>a\<in>set new. n_objs h \<le> a \<and> a < n_objs h') \<and> n_objs h \<le> n_objs h'"
  using assms
proof (induction population arbitrary: h i offspring)
  case Nil
  then show ?case by simp
next
  case (Cons layout rest)
  obtain r idx1 idx2 where d: "draw i = (r, idx1, idx2)" by (cases "draw i")
  show ?case
  proof (cases "r < 8 / 10")
    case True
    with Cons.prems d obtain mutated h1 where
      m: "mutate_layout opt h layout idx1 idx2 = Inr (mutated, h1)"
      and l: "offspring_loop opt h1 draw (i + 1) rest (offspring @ [mutated]) = Inr (offspring', h')"
      by (auto split: sum.splits)
    from mutate_layout_alloc[OF m] have a: "mutated = n_objs h" "n_objs h1 = n_objs h + 1"
      by simp_all
    from Cons.IH[OF l] obtain new1 where
      n: "offspring' = (offspring @ [mutated]) @ new1" "distinct new1"
       "\<forall>a\<in>set new1. n_objs h1 \<le> a \<and> a < n_objs h'" "n_objs h1 \<le> n_objs h'" by blast
    have "offspring' = offspring @ (mutated # new1)" using n(1) by simp
    moreover have "distinct (mutated # new1)" using n(2,3) a by auto
    moreover have "\<forall>a\<in>set (mutated # new1). n_objs h \<le> a \<and> a < n_objs h'"
      using n(3,4) a by auto
    moreover have "n_objs h \<le> n_objs h'" using n(4) a by simp
    ultimately show ?thesis by blast
  next
    case False
    with Cons.prems d have
      "offspring_loop opt h draw (i + 1) rest offspring = Inr (offspring', h')" by simp
    from Cons.IH[OF this] show ?thesis .
  qed
qed

lemma combined_population_distinct:
  assumes "offspring_loop opt h draw 0 population [] = Inr (offspring, h1)"
    and "distinct population" and "\<forall>a\<in>set population. a < n_objs h"
  shows "distinct (population @ offspring)"
proof -
  from offspring_loop_fresh[OF assms(1)] have "distinct offspring"
    and "\<forall>a\<in>set offspring. n_objs h \<le> a" by auto
  with assms(2,3) show ?thesis by fastforce
qed

text \<open>
  Three genomes for tests: the object behind 1 and the object behind 2 each dominate the
  object behind 0, and neither of the two dominates the other.
\<close>

definition chain_store :: "nat \<Rightarrow> Layout" where
  "chain_store a = (if a = 0 then test_genome 2 2 2 else if a = 1 then test_genome 1 1 1
                    else test_genome 1 0 2)"

lemma flat_antichain:
  "\<forall>a\<in>set [0, 1, 2]. \<forall>b\<in>set [0, 1, 2]. \<not> dominates (flat_store a) (flat_store b)"
  by (simp add: dominates_def flat_store_def test_genome_def)

text \<open>
  Claim C5. For every population of distinct objects the sort returns fronts, and for
  every two genomes \<open>a\<close> and \<open>b\<close> of one returned front neither dominates the other
  (the statement ranges over all pairs, so it holds in both directions), under
  \<^verbatim>\<open>Layout.dominates\<close>: in the store the sort was given and in the store it returns.
\<close>

theorem front_non_domination:
  assumes "distinct population"
  shows "\<exists>fronts os'. fast_non_dominated_sort os population = Inr (fronts, os')
     \<and> (\<forall>F\<in>set fronts. \<forall>a\<in>set F. \<forall>b\<in>set F.
           \<not> dominates (os a) (os b) \<and> \<not> dominates (os' a) (os' b))"
proof -
  from sort_result[OF assms, of os] obtain fronts os' where
    s: "fast_non_dominated_sort os population = Inr (fronts, os')"
    and m: "same_mets os os'"
    and n: "\<forall>F\<in>set fronts. \<forall>a\<in>set F. \<forall>b\<in>set F. \<not> dominates (os a) (os b)" by blast
  have "\<forall>F\<in>set fronts. \<forall>a\<in>set F. \<forall>b\<in>set F.
           \<not> dominates (os a) (os b) \<and> \<not> dominates (os' a) (os' b)"
    using n same_mets_dominates[OF m] by simp
  with s show ?thesis by blast
qed

theorem front_non_domination_witness:
  "fst (projr (fast_non_dominated_sort flat_store [0, 1, 2])) = [[0, 1, 2]]
   \<and> \<not> dominates (flat_store 0) (flat_store 1)
   \<and> \<not> dominates (snd (projr (fast_non_dominated_sort flat_store [0, 1, 2])) 0)
        (snd (projr (fast_non_dominated_sort flat_store [0, 1, 2])) 1)"
proof -
  have d: "distinct [0, 1, 2::nat]" by simp
  from sort_antichain[OF d _ flat_antichain] obtain os1 where
    s: "fast_non_dominated_sort flat_store [0, 1, 2] = Inr ([[0, 1, 2]], os1)" by auto
  from front_non_domination[OF d, of flat_store] obtain fronts os' where
    t: "fast_non_dominated_sort flat_store [0, 1, 2] = Inr (fronts, os')"
    and n: "\<forall>F\<in>set fronts. \<forall>a\<in>set F. \<forall>b\<in>set F.
           \<not> dominates (flat_store a) (flat_store b) \<and> \<not> dominates (os' a) (os' b)" by blast
  from s t have e: "fronts = [[0, 1, 2]]" "os' = os1" by simp_all
  from n have "\<not> dominates (flat_store 0) (flat_store 1) \<and> \<not> dominates (os1 0) (os1 1)"
    unfolding e by simp
  then show ?thesis unfolding s by simp
qed

text \<open>
  Claim C6. For every population of distinct objects the sort returns fronts that
  partition it: the sizes of the fronts sum to the size of the population, no genome is
  in two fronts or twice in one, and the genomes in the fronts are the genomes of the
  population.
\<close>

theorem fronts_partition:
  assumes "distinct population"
  shows "\<exists>fronts os'. fast_non_dominated_sort os population = Inr (fronts, os')
     \<and> sum_list (map length fronts) = length population
     \<and> distinct (concat fronts) \<and> set (concat fronts) = set population"
proof -
  from sort_result[OF assms, of os] obtain fronts os' where
    s: "fast_non_dominated_sort os population = Inr (fronts, os')"
    and d: "distinct (concat fronts)" and e: "set (concat fronts) = set population" by blast
  have "sum_list (map length fronts) = length (concat fronts)" by (simp add: length_concat)
  also have "\<dots> = card (set (concat fronts))" using d by (rule distinct_card[symmetric])
  also have "\<dots> = length population" unfolding e using assms by (simp add: distinct_card)
  finally show ?thesis using s d e by blast
qed

theorem fronts_partition_witness:
  "sum_list (map length (fst (projr (fast_non_dominated_sort chain_store [0, 1, 2])))) = 3
   \<and> set (concat (fst (projr (fast_non_dominated_sort chain_store [0, 1, 2])))) = {0, 1, 2}"
proof -
  have d: "distinct [0, 1, 2::nat]" by simp
  from fronts_partition[OF d, of chain_store] obtain fronts os' where
    "fast_non_dominated_sort chain_store [0, 1, 2] = Inr (fronts, os')"
    "sum_list (map length fronts) = length [0, 1, 2::nat]"
    "set (concat fronts) = set [0, 1, 2]" by blast
  then show ?thesis by simp
qed

section \<open>Selection of the next generation\<close>

text \<open>
  When no member of the population is mutated the offspring list is empty and the loop
  leaves the store as it is. The crowding-distance computation keeps the size of every
  front. When all fronts together fit into \<^verbatim>\<open>population_size\<close>, the \<^verbatim>\<open>while\<close> loop appends
  every front and then reads \<^verbatim>\<open>fronts[front_index]\<close> with \<^verbatim>\<open>front_index = len(fronts)\<close>.
\<close>

lemma offspring_loop_none:
  assumes "\<forall>j. 8 / 10 \<le> fst (draw j)"
  shows "offspring_loop opt h draw i population offspring = Inr (offspring, h)"
proof (induction population arbitrary: i)
  case Nil
  show ?case by simp
next
  case (Cons layout rest)
  obtain r idx1 idx2 where d: "draw i = (r, idx1, idx2)" by (cases "draw i")
  from assms have "8 / 10 \<le> fst (draw i)" by (rule spec)
  with d have "\<not> r < 8 / 10" by simp
  with d Cons show ?case by simp
qed

lemma step_fold_length:
  "foldl (\<lambda>st f. objective_step f st) (os, fr) fs = (os', fr') \<Longrightarrow> length fr' = length fr"
proof (induction fs arbitrary: os fr)
  case Nil
  then show ?case by simp
next
  case (Cons f fs)
  obtain os1 fr1 where s: "objective_step f (os, fr) = (os1, fr1)"
    by (cases "objective_step f (os, fr)")
  from step_props(1)[OF s] have "length fr1 = length fr" by simp
  moreover from Cons.prems s have "foldl (\<lambda>st f. objective_step f st) (os1, fr1) fs = (os', fr')"
    by simp
  from Cons.IH[OF this] have "length fr' = length fr1" .
  ultimately show ?case by simp
qed

lemma crowding_distance_length:
  "calculate_crowding_distance os front = (os', front') \<Longrightarrow> length front' = length front"
  unfolding calculate_crowding_distance_def
  by (auto split: if_splits dest: step_fold_length)

lemma crowding_loop_lengths:
  "crowding_loop os fronts = (os', fronts') \<Longrightarrow> map length fronts' = map length fronts"
proof (induction fronts arbitrary: os os' fronts')
  case Nil
  then show ?case by simp
next
  case (Cons front fronts)
  obtain os1 front1 where c: "calculate_crowding_distance os front = (os1, front1)"
    by (cases "calculate_crowding_distance os front")
  obtain os2 fronts2 where l: "crowding_loop os1 fronts = (os2, fronts2)"
    by (cases "crowding_loop os1 fronts")
  from Cons.prems c l have "fronts' = front1 # fronts2" by simp
  with crowding_distance_length[OF c] Cons.IH[OF l] show ?case by simp
qed

lemma fill_loop_all_fit:
  assumes "int (length new_population) + int (sum_list (map length (drop front_index fronts)))
             \<le> population_size"
  shows "fill_loop fronts population_size new_population front_index = Inl IndexError"
  using assms
proof (induction fronts population_size new_population front_index rule: fill_loop.induct)
  case (1 fronts population_size new_population front_index)
  show ?case
  proof (cases "front_index \<ge> length fronts")
    case True
    then show ?thesis by (simp add: fill_loop.simps[of fronts population_size new_population])
  next
    case False
    then have d: "drop front_index fronts = fronts ! front_index # drop (front_index + 1) fronts"
      by (simp add: Cons_nth_drop_Suc)
    from "1.prems" have fit: "int (length new_population) + int (length (fronts ! front_index))
        \<le> population_size" unfolding d by simp
    from "1.prems" have "int (length (new_population @ fronts ! front_index))
        + int (sum_list (map length (drop (front_index + 1) fronts))) \<le> population_size"
      unfolding d by simp
    from "1.IH"[OF False fit this] show ?thesis
      using False fit by (simp add: fill_loop.simps[of fronts population_size new_population])
  qed
qed

text \<open>
  Claim C9 fails on the code. In a generation in which no genome is mutated
  (\<^verbatim>\<open>random.random()\<close> gives at least 0.8 for every member) the offspring list is empty and
  the combined pool is the population, of exactly \<^verbatim>\<open>population_size\<close> genomes. Every front
  fits, so the \<^verbatim>\<open>while\<close> loop appends them all and evaluates its condition once more with
  \<^verbatim>\<open>front_index = len(fronts)\<close>: \<^verbatim>\<open>fronts[front_index]\<close> raises \<^verbatim>\<open>IndexError\<close>, and the generation
  produces no population. The instance below is the population of the one evaluated
  genome of \<open>example_parent_heap\<close> with \<^verbatim>\<open>population_size = 1\<close> and \<^verbatim>\<open>random.random()\<close>
  giving 0.9.
\<close>

theorem no_offspring_index_error:
  assumes "distinct population" and "\<forall>j. 8 / 10 \<le> fst (draw j)"
  shows "generation opt h population draw (int (length population)) = Inl IndexError"
proof -
  from sort_result[OF assms(1), of "objs h"] obtain fronts os2 where
    s: "fast_non_dominated_sort (objs h) population = Inr (fronts, os2)"
    and d: "distinct (concat fronts)" and e: "set (concat fronts) = set population" by blast
  have "sum_list (map length fronts) = length (concat fronts)" by (simp add: length_concat)
  also have "\<dots> = card (set (concat fronts))" using d by (rule distinct_card[symmetric])
  also have "\<dots> = length population" unfolding e using assms(1) by (simp add: distinct_card)
  finally have n: "sum_list (map length fronts) = length population" .
  obtain os3 fronts' where c: "crowding_loop os2 fronts = (os3, fronts')"
    by (cases "crowding_loop os2 fronts")
  from crowding_loop_lengths[OF c] n have "sum_list (map length fronts') = length population"
    by simp
  then have "int (length ([]::nat list)) + int (sum_list (map length (drop 0 fronts')))
        \<le> int (length population)" by simp
  then have "fill_loop fronts' (int (length population)) [] 0 = Inl IndexError"
    by (rule fill_loop_all_fit)
  then have "select_next_generation os3 fronts' (int (length population)) = Inl IndexError"
    by (simp add: select_next_generation_def)
  then show ?thesis
    by (simp add: generation_def offspring_loop_none[OF assms(2)] s c)
qed

theorem empty_offspring_index_error:
  "generation example_optimizer example_parent_heap [0] (\<lambda>i. (9 / 10, 0, 1)) 1 = Inl IndexError"
  using no_offspring_index_error[of "[0]" "\<lambda>i. (9 / 10, 0, 1)" example_optimizer example_parent_heap]
  by simp

end
